theory Spec2Isabelle
  imports Complex_Main "HOL-Library.AList" "HOL-Library.Multiset"
begin

section \<open>JavaScript values\<close>

text \<open>
  The column width utilities are JavaScript functions over loosely typed values. A Number
  is an IEEE 754 binary64 value: not-a-number, the two infinities, the two zeros, and the
  finite non-zero values, which are carried as the rational they denote. \<open>Fin 0\<close> is
  \<open>+0\<close>, \<open>NegZero\<close> is \<open>-0\<close>. A \<open>Fin q\<close> that a computation produces always holds a
  rational that binary64 represents, because every arithmetic result goes through \<open>rnd\<close>.

  Strings are lists of 8-bit code units. Objects other than the block records below
  (functions, arrays, symbols as width values) are outside the model.
\<close>

datatype jsnum = NaN | PosInf | NegInf | NegZero | Fin rat

datatype jsval = JUndefined | JNull | JBool bool | JNum jsnum | JStr string

subsection \<open>Rounding a rational to binary64\<close>

text \<open>Round to nearest integer, ties to even.\<close>

definition round_even :: "rat \<Rightarrow> int" where
  "round_even m =
     (let f = \<lfloor>m\<rfloor>; d = m - of_int f
      in if d < 1 / 2 then f else if 1 / 2 < d then f + 1 else if even f then f else f + 1)"

text \<open>The number of digits of a positive integer in base \<open>b\<close>.\<close>

function ilen :: "int \<Rightarrow> int \<Rightarrow> int" where
  "ilen b n = (if 0 < n \<and> 1 < b then ilen b (n div b) + 1 else 0)"
  by pat_completeness auto
termination
  by (relation "measure (\<lambda>(b, n). nat n)") (auto intro: int_div_less_self)

declare ilen.simps [simp del]

text \<open>
  \<open>floor_log b a\<close> is the \<open>e\<close> with \<open>b^e \<le> a < b^(e+1)\<close>, for positive \<open>a\<close>: the
  difference of the lengths of numerator and denominator, or one less.
\<close>

definition floor_log :: "int \<Rightarrow> rat \<Rightarrow> int" where
  "floor_log b a =
     (case quotient_of a of (p, q) \<Rightarrow>
        let e0 = ilen b p - ilen b q in if of_int b powi e0 \<le> a then e0 else e0 - 1)"

text \<open>
  The Number value for a rational: the nearest binary64 value, ties to the even
  significand, with 53 bits of precision, exponents from \<open>-1022\<close> (subnormals below) to
  \<open>1023\<close>, overflow to an infinity and underflow to a zero of the same sign. With
  \<open>e\<close> the exponent of the magnitude, the result is \<open>n * 2^(e-52)\<close> for the integer \<open>n\<close>
  nearest to the magnitude in units of \<open>2^(e-52)\<close>; it overflows when \<open>e\<close> is above 1023
  or the rounding carries out of the top binade.
\<close>

definition rnd :: "rat \<Rightarrow> jsnum" where
  "rnd q =
     (if q = 0 then Fin 0
      else
        let a = \<bar>q\<bar>;
            e = max (floor_log 2 a) (- 1022);
            u = 2 powi (e - 52);
            n = round_even (a / u)
        in if 1023 < e \<or> (e = 1023 \<and> n = 2 ^ 53) then (if 0 < q then PosInf else NegInf)
           else if n = 0 then (if 0 < q then Fin 0 else NegZero)
           else Fin (if 0 < q then of_int n * u else - (of_int n * u)))"

subsection \<open>Number arithmetic\<close>

fun is_nan :: "jsnum \<Rightarrow> bool" where
  "is_nan NaN = True"
| "is_nan _ = False"

fun is_inf :: "jsnum \<Rightarrow> bool" where
  "is_inf PosInf = True"
| "is_inf NegInf = True"
| "is_inf _ = False"

fun is_zero :: "jsnum \<Rightarrow> bool" where
  "is_zero NegZero = True"
| "is_zero (Fin q) = (q = 0)"
| "is_zero _ = False"

fun sign_neg :: "jsnum \<Rightarrow> bool" where
  "sign_neg NegInf = True"
| "sign_neg NegZero = True"
| "sign_neg (Fin q) = (q < 0)"
| "sign_neg _ = False"

text \<open>The rational a finite Number denotes (both zeros denote 0).\<close>

fun num_val :: "jsnum \<Rightarrow> rat" where
  "num_val (Fin q) = q"
| "num_val _ = 0"

fun num_neg :: "jsnum \<Rightarrow> jsnum" where
  "num_neg NaN = NaN"
| "num_neg PosInf = NegInf"
| "num_neg NegInf = PosInf"
| "num_neg NegZero = Fin 0"
| "num_neg (Fin q) = (if q = 0 then NegZero else Fin (- q))"

definition signed_inf :: "bool \<Rightarrow> jsnum" where
  "signed_inf neg = (if neg then NegInf else PosInf)"

definition signed_zero :: "bool \<Rightarrow> jsnum" where
  "signed_zero neg = (if neg then NegZero else Fin 0)"

text \<open>\<open>Number::add\<close>.\<close>

definition num_add :: "jsnum \<Rightarrow> jsnum \<Rightarrow> jsnum" where
  "num_add x y =
     (if is_nan x \<or> is_nan y then NaN
      else if is_inf x then (if is_inf y \<and> x \<noteq> y then NaN else x)
      else if is_inf y then y
      else if is_zero x \<and> is_zero y then signed_zero (sign_neg x \<and> sign_neg y)
      else rnd (num_val x + num_val y))"

text \<open>\<open>Number::subtract\<close> is addition of the negated right operand.\<close>

definition num_sub :: "jsnum \<Rightarrow> jsnum \<Rightarrow> jsnum" where
  "num_sub x y = num_add x (num_neg y)"

text \<open>\<open>Number::divide\<close>.\<close>

definition num_div :: "jsnum \<Rightarrow> jsnum \<Rightarrow> jsnum" where
  "num_div x y =
     (if is_nan x \<or> is_nan y then NaN
      else
        let neg = (sign_neg x \<noteq> sign_neg y)
        in if is_inf x then (if is_inf y then NaN else signed_inf neg)
           else if is_inf y then signed_zero neg
           else if is_zero y then (if is_zero x then NaN else signed_inf neg)
           else if is_zero x then signed_zero neg
           else rnd (num_val x / num_val y))"

text \<open>\<open>x < y\<close> on Numbers: false when either is not-a-number; the zeros are equal.\<close>

definition num_less :: "jsnum \<Rightarrow> jsnum \<Rightarrow> bool" where
  "num_less x y =
     (if is_nan x \<or> is_nan y then False
      else if x = PosInf \<or> y = NegInf then False
      else if x = NegInf \<or> y = PosInf then True
      else num_val x < num_val y)"

text \<open>\<open>Number.isFinite\<close> on a Number.\<close>

fun num_finite :: "jsnum \<Rightarrow> bool" where
  "num_finite NaN = False"
| "num_finite PosInf = False"
| "num_finite NegInf = False"
| "num_finite _ = True"

text \<open>\<open>Math.min\<close> of two Numbers: not-a-number is contagious, \<open>-0\<close> is below \<open>+0\<close>.\<close>

definition num_min :: "jsnum \<Rightarrow> jsnum \<Rightarrow> jsnum" where
  "num_min x y =
     (if is_nan x \<or> is_nan y then NaN
      else if num_less y x then y
      else if num_less x y then x
      else if sign_neg y then y else x)"




subsection \<open>Reading numbers from strings\<close>

definition is_digit :: "char \<Rightarrow> bool" where
  "is_digit c = (48 \<le> (of_char c :: int) \<and> (of_char c :: int) \<le> 57)"

definition digit_of :: "char \<Rightarrow> int" where
  "digit_of c = of_char c - 48"

text \<open>White space and line terminators among the 8-bit code units.\<close>

definition is_ws :: "char \<Rightarrow> bool" where
  "is_ws c = ((of_char c :: int) \<in> {9, 10, 11, 12, 13, 32, 160})"

definition digits_val :: "string \<Rightarrow> int" where
  "digits_val ds = foldl (\<lambda>a c. 10 * a + digit_of c) 0 ds"

fun strip_prefix :: "string \<Rightarrow> string \<Rightarrow> string option" where
  "strip_prefix [] s = Some s"
| "strip_prefix (p # ps) [] = None"
| "strip_prefix (p # ps) (c # cs) = (if p = c then strip_prefix ps cs else None)"

text \<open>
  The optional \<open>ExponentPart\<close> at the head of a string: the exponent and what follows it,
  or exponent 0 and the string itself when no complete exponent part is there.
\<close>

definition exponent_part :: "string \<Rightarrow> int \<times> string" where
  "exponent_part s =
     (case s of
        [] \<Rightarrow> (0, s)
      | c # t \<Rightarrow>
          if c = CHR ''e'' \<or> c = CHR ''E'' then
            (let (neg, t') =
                   (case t of
                      [] \<Rightarrow> (False, t)
                    | d # t2 \<Rightarrow>
                        if d = CHR ''-'' then (True, t2)
                        else if d = CHR ''+'' then (False, t2) else (False, t));
                 ds = takeWhile is_digit t'
             in if ds = [] then (0, s)
                else ((if neg then - digits_val ds else digits_val ds),
                      dropWhile is_digit t'))
          else (0, s))"

text \<open>
  The longest prefix that is a \<open>StrUnsignedDecimalLiteral\<close>: its mathematical value
  (\<open>None\<close> standing for \<open>Infinity\<close>) and the rest of the string; \<open>None\<close> when no prefix is
  such a literal. The literal is \<open>Infinity\<close>, or digits with an optional point and
  fraction, or a point and a fraction, each with an optional exponent part. The Number
  for the value is the nearest binary64 value, as engines compute it, also for literals of
  more than 20 significant digits.
\<close>

definition unsigned_decimal :: "string \<Rightarrow> (rat option \<times> string) option" where
  "unsigned_decimal s =
     (case strip_prefix ''Infinity'' s of
        Some r \<Rightarrow> Some (None, r)
      | None \<Rightarrow>
          let ip = takeWhile is_digit s;
              r1 = dropWhile is_digit s;
              dot = (r1 \<noteq> [] \<and> hd r1 = CHR ''.'');
              fp = (if dot then takeWhile is_digit (tl r1) else []);
              r2 = (if dot then dropWhile is_digit (tl r1) else r1)
          in if ip = [] \<and> fp = [] then None
             else
               (let (ex, r3) = exponent_part r2
                in Some (Some (of_int (digits_val (ip @ fp)) * 10 powi (ex - int (length fp))),
                         r3)))"

text \<open>
  The longest prefix that is a \<open>StrDecimalLiteral\<close> (an optionally signed literal), as a
  Number. A negated zero is \<open>-0\<close>.
\<close>

definition mv_number :: "rat option \<Rightarrow> jsnum" where
  "mv_number m = (case m of None \<Rightarrow> PosInf | Some q \<Rightarrow> rnd q)"

definition decimal_literal :: "string \<Rightarrow> (jsnum \<times> string) option" where
  "decimal_literal s =
     (case s of
        [] \<Rightarrow> None
      | c # t \<Rightarrow>
          if c = CHR ''-'' then map_option (\<lambda>(m, r). (num_neg (mv_number m), r)) (unsigned_decimal t)
          else if c = CHR ''+'' then map_option (\<lambda>(m, r). (mv_number m, r)) (unsigned_decimal t)
          else map_option (\<lambda>(m, r). (mv_number m, r)) (unsigned_decimal s))"

text \<open>\<open>parseFloat\<close> applied to a string.\<close>

definition parseFloat_string :: "string \<Rightarrow> jsnum" where
  "parseFloat_string s =
     (case decimal_literal (dropWhile is_ws s) of None \<Rightarrow> NaN | Some (x, _) \<Rightarrow> x)"

subsection \<open>Writing numbers as strings\<close>

definition digit_char :: "int \<Rightarrow> char" where
  "digit_char d = char_of (48 + d)"

text \<open>The decimal digits of a non-negative integer.\<close>

function show_nat :: "int \<Rightarrow> string" where
  "show_nat n = (if n < 10 then [digit_char n] else show_nat (n div 10) @ [digit_char (n mod 10)])"
  by pat_completeness auto
termination
  by (relation "measure nat") auto

declare show_nat.simps [simp del]

text \<open>
  \<open>Number::toString\<close> writes a positive finite \<open>x\<close> with the least number \<open>k\<close> of
  significant digits \<open>s\<close> such that \<open>s * 10^(n-k)\<close> reads back as \<open>x\<close>; among several \<open>s\<close>
  the one closest to \<open>x\<close>, the even one on a tie. With \<open>10^(n0-1) \<le> x < 10^n0\<close> the
  candidates for \<open>k\<close> digits are the two integers around \<open>x / 10^(n0-k)\<close>; the upper one may
  be \<open>10^k\<close>, which is the single digit 1 one decimal place higher. The search ends at the
  latest when \<open>10^(n0-k)\<close> reaches \<open>10^(-1074)\<close>, where the lower candidate is \<open>x\<close> itself.
\<close>

definition repr_candidate :: "rat \<Rightarrow> int \<Rightarrow> int \<Rightarrow> (int \<times> int \<times> int) option" where
  "repr_candidate x n0 k =
     (let scale = 10 powi (n0 - k);
          lo = \<lfloor>x / scale\<rfloor>;
          hi = lo + 1;
          oklo = (rnd (of_int lo * scale) = Fin x);
          okhi = (rnd (of_int hi * scale) = Fin x);
          dlo = x - of_int lo * scale;
          dhi = of_int hi * scale - x;
          pick_hi = (okhi \<and> (\<not> oklo \<or> dhi < dlo \<or> (dhi = dlo \<and> even hi)))
      in if pick_hi then (if hi = 10 ^ nat k then Some (1, 1, n0 + 1) else Some (hi, k, n0))
         else if oklo then Some (lo, k, n0)
         else None)"

function shortest_repr :: "rat \<Rightarrow> int \<Rightarrow> int \<Rightarrow> int \<times> int \<times> int" where
  "shortest_repr x n0 k =
     (case repr_candidate x n0 k of
        Some r \<Rightarrow> r
      | None \<Rightarrow>
          if k < n0 + 1074 then shortest_repr x n0 (k + 1)
          else (\<lfloor>x / 10 powi (n0 - k)\<rfloor>, k, n0))"
  by pat_completeness auto
termination
  by (relation "measure (\<lambda>(x, n0, k). nat (n0 + 1074 - k))") auto

declare shortest_repr.simps [simp del]

definition show_exponent :: "int \<Rightarrow> string" where
  "show_exponent e = (if 0 \<le> e then CHR ''+'' # show_nat e else CHR ''-'' # show_nat (- e))"

definition show_positive :: "rat \<Rightarrow> string" where
  "show_positive x =
     (case shortest_repr x (floor_log 10 x + 1) 1 of (s, k, n) \<Rightarrow>
        let ds = show_nat s
        in if k \<le> n \<and> n \<le> 21 then ds @ replicate (nat (n - k)) CHR ''0''
           else if 0 < n \<and> n \<le> 21 then take (nat n) ds @ CHR ''.'' # drop (nat n) ds
           else if - 6 < n \<and> n \<le> 0 then ''0.'' @ replicate (nat (- n)) CHR ''0'' @ ds
           else if k = 1 then ds @ CHR ''e'' # show_exponent (n - 1)
           else take 1 ds @ CHR ''.'' # drop 1 ds @ CHR ''e'' # show_exponent (n - 1))"

text \<open>\<open>Number::toString\<close> in radix 10.\<close>

fun num_to_string :: "jsnum \<Rightarrow> string" where
  "num_to_string NaN = ''NaN''"
| "num_to_string PosInf = ''Infinity''"
| "num_to_string NegInf = ''-Infinity''"
| "num_to_string NegZero = ''0''"
| "num_to_string (Fin q) =
     (if q = 0 then ''0''
      else if q < 0 then CHR ''-'' # show_positive (- q)
      else show_positive q)"

text \<open>
  \<open>Number.prototype.toFixed(2)\<close> on a finite Number: below \<open>10^21\<close> the integer \<open>n\<close>
  with \<open>n / 100\<close> closest to the magnitude (the larger \<open>n\<close> on a tie), written with at least
  three digits and a point before the last two; from \<open>10^21\<close> on, \<open>Number::toString\<close>.
  A minus sign precedes when the value is negative.
\<close>

definition toFixed2_magnitude :: "rat \<Rightarrow> string" where
  "toFixed2_magnitude x =
     (if 10 ^ 21 \<le> x then num_to_string (Fin x)
      else
        let n = \<lfloor>x * 100 + 1 / 2\<rfloor>;
            m = show_nat n;
            m' = replicate (3 - length m) CHR ''0'' @ m;
            k = length m'
        in take (k - 2) m' @ CHR ''.'' # drop (k - 2) m')"

definition toFixed2 :: "jsnum \<Rightarrow> string" where
  "toFixed2 x =
     (if \<not> num_finite x then num_to_string x
      else if num_val x < 0 then CHR ''-'' # toFixed2_magnitude (- num_val x)
      else toFixed2_magnitude (num_val x))"

subsection \<open>Conversions and operators on values\<close>

text \<open>\<open>ToString\<close>.\<close>

fun to_string :: "jsval \<Rightarrow> string" where
  "to_string JUndefined = ''undefined''"
| "to_string JNull = ''null''"
| "to_string (JBool b) = (if b then ''true'' else ''false'')"
| "to_string (JNum x) = num_to_string x"
| "to_string (JStr s) = s"

text \<open>
  \<open>parseFloat\<close> converts its argument to a string and reads the longest decimal literal
  at its head. On a Number the string is \<open>Number::toString\<close> of it, which reads back as
  the same Number, except that \<open>-0\<close> is written \<open>0\<close> and read back as \<open>+0\<close>; the model
  returns that Number directly.
\<close>

fun parseFloat :: "jsval \<Rightarrow> jsnum" where
  "parseFloat (JNum x) = (if x = NegZero then Fin 0 else x)"
| "parseFloat v = parseFloat_string (to_string v)"

text \<open>
  \<open>StringToNumber\<close>: the whole string, white space trimmed, must be a decimal literal or
  an unsigned hexadecimal, octal or binary integer literal; the empty string is \<open>+0\<close>.
\<close>

definition radix_digit :: "char \<Rightarrow> int" where
  "radix_digit c =
     (let n = (of_char c :: int)
      in if 48 \<le> n \<and> n \<le> 57 then n - 48
         else if 97 \<le> n \<and> n \<le> 102 then n - 87
         else if 65 \<le> n \<and> n \<le> 70 then n - 55
         else 16)"

definition radix_literal :: "int \<Rightarrow> string \<Rightarrow> jsnum" where
  "radix_literal b ds =
     (if ds \<noteq> [] \<and> list_all (\<lambda>c. radix_digit c < b) ds
      then rnd (of_int (foldl (\<lambda>a c. b * a + radix_digit c) 0 ds))
      else NaN)"

definition trim :: "string \<Rightarrow> string" where
  "trim s = rev (dropWhile is_ws (rev (dropWhile is_ws s)))"

definition string_to_number :: "string \<Rightarrow> jsnum" where
  "string_to_number s =
     (let t = trim s
      in if t = [] then Fin 0
         else if take 2 t = ''0x'' \<or> take 2 t = ''0X'' then radix_literal 16 (drop 2 t)
         else if take 2 t = ''0o'' \<or> take 2 t = ''0O'' then radix_literal 8 (drop 2 t)
         else if take 2 t = ''0b'' \<or> take 2 t = ''0B'' then radix_literal 2 (drop 2 t)
         else (case decimal_literal t of
                 Some (x, []) \<Rightarrow> x
               | _ \<Rightarrow> NaN))"

text \<open>\<open>ToNumber\<close>.\<close>

fun to_number :: "jsval \<Rightarrow> jsnum" where
  "to_number JUndefined = NaN"
| "to_number JNull = Fin 0"
| "to_number (JBool b) = (if b then Fin 1 else Fin 0)"
| "to_number (JNum x) = x"
| "to_number (JStr s) = string_to_number s"

text \<open>\<open>ToBoolean\<close>.\<close>

fun truthy :: "jsval \<Rightarrow> bool" where
  "truthy JUndefined = False"
| "truthy JNull = False"
| "truthy (JBool b) = b"
| "truthy (JNum x) = (\<not> is_nan x \<and> \<not> is_zero x)"
| "truthy (JStr s) = (s \<noteq> [])"

text \<open>\<open>Number.isFinite\<close>: true only of a Number, and no conversion is made.\<close>

fun isFinite :: "jsval \<Rightarrow> bool" where
  "isFinite (JNum x) = num_finite x"
| "isFinite _ = False"

text \<open>The operators \<open>+\<close>, \<open>-\<close>, \<open>/\<close>, and \<open>Math.min\<close> of two arguments.\<close>

fun is_string :: "jsval \<Rightarrow> bool" where
  "is_string (JStr s) = True"
| "is_string _ = False"

definition js_add :: "jsval \<Rightarrow> jsval \<Rightarrow> jsval" where
  "js_add v w =
     (if is_string v \<or> is_string w then JStr (to_string v @ to_string w)
      else JNum (num_add (to_number v) (to_number w)))"

definition js_sub :: "jsval \<Rightarrow> jsval \<Rightarrow> jsval" where
  "js_sub v w = JNum (num_sub (to_number v) (to_number w))"

definition js_div :: "jsval \<Rightarrow> jsval \<Rightarrow> jsval" where
  "js_div v w = JNum (num_div (to_number v) (to_number w))"

definition Math_min :: "jsval \<Rightarrow> jsval \<Rightarrow> jsval" where
  "Math_min v w = JNum (num_min (to_number v) (to_number w))"

text \<open>The \<open>length\<close> of an array, as a Number.\<close>

definition js_length :: "'a list \<Rightarrow> jsval" where
  "js_length xs = JNum (Fin (of_nat (length xs)))"

subsection \<open>The lodash functions used\<close>

text \<open>
  The functions \<open>sumBy\<close>, \<open>mapValues\<close> and \<open>merge\<close> are those of lodash 4, which the
  module imports. \<open>sumBy\<close> is 0 on an empty array; otherwise its \<open>baseSum\<close> runs over the
  array with the result starting undefined, skips every value that is undefined, takes
  the first other value as the result and adds each later one to it with \<open>+\<close>.
\<close>

fun baseSum :: "jsval list \<Rightarrow> jsval \<Rightarrow> jsval" where
  "baseSum [] result = result"
| "baseSum (current # rest) result =
     (if current \<noteq> JUndefined
      then baseSum rest (if result = JUndefined then current else js_add result current)
      else baseSum rest result)"

definition sumBy :: "'a list \<Rightarrow> ('a \<Rightarrow> jsval) \<Rightarrow> jsval" where
  "sumBy array iteratee = (if array \<noteq> [] then baseSum (map iteratee array) JUndefined else JNum (Fin 0))"

text \<open>
  An object with string keys is the list of its own properties in the order in which
  they are enumerated: first the keys that are array indices, in ascending numeric
  order, then the other keys in the order in which they were created. An array index is
  the decimal numeral, without a leading zero, of an integer from 0 to \<open>2\<^sup>3\<^sup>2 - 2\<close>.
\<close>

type_synonym widths = "(string \<times> jsval) list"

definition is_array_index :: "string \<Rightarrow> bool" where
  "is_array_index key =
     (key \<noteq> [] \<and> list_all is_digit key \<and> (hd key \<noteq> CHR ''0'' \<or> key = ''0'') \<and>
      digits_val key \<le> 4294967294)"

fun insert_index :: "string \<Rightarrow> jsval \<Rightarrow> widths \<Rightarrow> widths" where
  "insert_index key v [] = [(key, v)]"
| "insert_index key v ((k, w) # rest) =
     (if is_array_index k \<and> digits_val k < digits_val key
      then (k, w) # insert_index key v rest
      else (key, v) # (k, w) # rest)"

text \<open>
  \<open>Object.assign(target, {[key]: v})\<close> sets \<open>key\<close> on the target, an object made by \<open>{}\<close>,
  whose prototype is \<open>Object.prototype\<close>. The key \<open>__proto__\<close> reaches the setter inherited
  from there, which does nothing when \<open>v\<close> is a Number or undefined, as every value this
  module assigns is: no property is created. Under every other key the object has or gets
  an own property (the other members of \<open>Object.prototype\<close> are writable data properties,
  which a set shadows): an existing one keeps its place and takes the value, a new one
  takes its place in the order of enumeration.
\<close>

definition set_property :: "widths \<Rightarrow> string \<Rightarrow> jsval \<Rightarrow> widths" where
  "set_property obj key v =
     (if key = ''__proto__'' then obj
      else if map_of obj key \<noteq> None then AList.update key v obj
      else if is_array_index key then insert_index key v obj
      else obj @ [(key, v)])"




text \<open>
  \<open>mapValues\<close> goes through the own properties in the order of enumeration and defines
  each key on a new object, so it keeps the keys and their order.
\<close>

definition mapValues :: "widths \<Rightarrow> (jsval \<Rightarrow> jsval) \<Rightarrow> widths" where
  "mapValues obj iteratee = map (\<lambda>(key, v). (key, iteratee v)) obj"

section \<open>Column width utilities\<close>

text \<open>
  A block carries its \<open>clientId\<close> and its attributes, of which \<open>width\<close> is the one these
  functions read; an attribute that is not set reads as undefined. All other fields of
  a block and of its attributes are in the extension part of the records.
\<close>

record attrs =
  width :: jsval

record 'a block =
  clientId :: string
  attributes :: "'a attrs_scheme"

definition toWidthPrecision :: "jsval \<Rightarrow> jsval" where
  "toWidthPrecision v =
     (let unitlessValue = parseFloat v
      in if isFinite (JNum unitlessValue)
         then JNum (parseFloat (JStr (toFixed2 unitlessValue)))
         else JUndefined)"

text \<open>The destructuring default applies exactly when the attribute is undefined.\<close>

definition getEffectiveColumnWidth :: "('a, 'b) block_scheme \<Rightarrow> jsval \<Rightarrow> jsval" where
  "getEffectiveColumnWidth block totalBlockCount =
     (let w = (if width (attributes block) = JUndefined
               then js_div (JNum (Fin 100)) totalBlockCount
               else width (attributes block))
      in toWidthPrecision w)"

text \<open>A parameter with a default takes it when the argument is undefined.\<close>

definition default_count :: "'a list \<Rightarrow> jsval \<Rightarrow> jsval" where
  "default_count blocks totalBlockCount =
     (if totalBlockCount = JUndefined then js_length blocks else totalBlockCount)"

definition getTotalColumnsWidth :: "('a, 'b) block_scheme list \<Rightarrow> jsval \<Rightarrow> jsval" where
  "getTotalColumnsWidth blocks totalBlockCount =
     sumBy blocks (\<lambda>block. getEffectiveColumnWidth block (default_count blocks totalBlockCount))"

definition getColumnWidths :: "('a, 'b) block_scheme list \<Rightarrow> jsval \<Rightarrow> widths" where
  "getColumnWidths blocks totalBlockCount =
     foldl (\<lambda>accumulator block.
              set_property accumulator (clientId block)
                (getEffectiveColumnWidth block (default_count blocks totalBlockCount)))
       [] blocks"

definition getRedistributedColumnWidths ::
    "('a, 'b) block_scheme list \<Rightarrow> jsval \<Rightarrow> jsval \<Rightarrow> widths" where
  "getRedistributedColumnWidths blocks availableWidth totalBlockCount =
     (let count = default_count blocks totalBlockCount;
          totalWidth = getTotalColumnsWidth blocks count;
          difference = js_sub availableWidth totalWidth;
          adjustment = js_div difference (js_length blocks)
      in mapValues (getColumnWidths blocks count)
           (\<lambda>width. toWidthPrecision (js_add width adjustment)))"

text \<open>
  \<open>blockWidth?.endsWith?.('%')\<close> is undefined unless the width is a string, which has the
  method; the condition is then whether the string ends in the percent sign.
\<close>

definition ends_with_percent :: "jsval \<Rightarrow> bool" where
  "ends_with_percent v = (case v of JStr s \<Rightarrow> s \<noteq> [] \<and> last s = CHR ''%'' | _ \<Rightarrow> False)"

definition hasExplicitPercentColumnWidths :: "('a, 'b) block_scheme list \<Rightarrow> bool" where
  "hasExplicitPercentColumnWidths blocks =
     list_all (\<lambda>block.
        let blockWidth = width (attributes block)
        in isFinite (if ends_with_percent blockWidth then JNum (parseFloat blockWidth) else blockWidth))
       blocks"








definition getWidths :: "('a, 'b) block_scheme list \<Rightarrow> bool \<Rightarrow> jsval list" where
  "getWidths blocks withParsing =
     map (\<lambda>innerColumn.
            let innerColumnWidth =
                  (if truthy (width (attributes innerColumn)) then width (attributes innerColumn)
                   else js_div (JNum (Fin 100)) (js_length blocks))
            in if withParsing then JNum (parseFloat innerColumnWidth) else innerColumnWidth)
       blocks"

definition getWidthWithUnit :: "jsval \<Rightarrow> string \<Rightarrow> string" where
  "getWidthWithUnit w unit =
     (let w1 = (if num_less (parseFloat w) (Fin 0) then JStr ''0'' else w);
          w2 = (if unit = ''%'' then Math_min w1 (JNum (Fin 100)) else w1)
      in to_string w2 @ unit)"

section \<open>Notions used in the statements\<close>

text \<open>\<open>x\<close> rounded to two decimals, a tie going away from zero.\<close>

definition two_decimals :: "rat \<Rightarrow> rat" where
  "two_decimals x = sgn x * of_int \<lfloor>\<bar>x\<bar> * 100 + 1 / 2\<rfloor> / 100"

text \<open>
  A Number is a binary64 value when rounding leaves it as it is. A value is well formed
  when, if it is a Number, it is a binary64 value.
\<close>

definition is_binary64 :: "jsnum \<Rightarrow> bool" where
  "is_binary64 x = (case x of Fin q \<Rightarrow> rnd q = Fin q | _ \<Rightarrow> True)"

definition well_formed :: "jsval \<Rightarrow> bool" where
  "well_formed v = (case v of JNum x \<Rightarrow> is_binary64 x | _ \<Rightarrow> True)"


text \<open>
  The width a column asks for, as a rational, among \<open>n\<close> columns: what its declared
  width parses to, or the equal share \<open>100 / n\<close> when it declares none.
\<close>

definition asked_width :: "('a, 'b) block_scheme \<Rightarrow> nat \<Rightarrow> rat" where
  "asked_width block n =
     (if width (attributes block) = JUndefined then 100 / of_nat n
      else num_val (parseFloat (width (attributes block))))"

text \<open>A block that has a client id and a width attribute and nothing else.\<close>

definition column :: "string \<Rightarrow> jsval \<Rightarrow> unit block" where
  "column i w = \<lparr>clientId = i, attributes = \<lparr>width = w\<rparr>\<rparr>"
section \<open>Lengths and logarithms\<close>

lemma ilen_nonneg: "0 \<le> ilen b n"
  by (induction b n rule: ilen.induct) (subst ilen.simps, auto)

lemma ilen_pos: "0 < n \<Longrightarrow> 1 < b \<Longrightarrow> 1 \<le> ilen b n"
  using ilen_nonneg [of b "n div b"] by (subst ilen.simps) simp

lemma ilen_step: "0 < n \<Longrightarrow> 1 < b \<Longrightarrow> ilen b n = ilen b (n div b) + 1"
  by (subst ilen.simps) simp

lemma ilen_bounds:
  "0 < n \<Longrightarrow> 1 < b \<Longrightarrow> b ^ nat (ilen b n - 1) \<le> n \<and> n < b ^ nat (ilen b n)"
proof (induction b n rule: ilen.induct)
  case (1 b n)
  have n: "0 < n" and b: "1 < b" using 1(2,3) by auto
  have dm: "n = b * (n div b) + n mod b" by simp
  have m0: "0 \<le> n mod b" and mb: "n mod b < b" using b by auto
  show ?case
  proof (cases "n div b = 0")
    case True
    then have nb: "n < b" using n b dm mb by simp
    have "ilen b (n div b) = 0" using True by (subst ilen.simps) simp
    then have "ilen b n = 1" using n b by (simp add: ilen_step)
    then show ?thesis using nb n by simp
  next
    case False
    have "0 \<le> n div b" using n b by (simp add: pos_imp_zdiv_nonneg_iff)
    then have pos: "0 < n div b" using False by simp
    have IH: "b ^ nat (ilen b (n div b) - 1) \<le> n div b \<and> n div b < b ^ nat (ilen b (n div b))"
      using 1(1) n b pos by simp
    have il: "ilen b n = ilen b (n div b) + 1" using n b by (rule ilen_step)
    have ge1: "1 \<le> ilen b (n div b)" using pos b by (rule ilen_pos)
    have e1: "nat (ilen b n - 1) = Suc (nat (ilen b (n div b) - 1))" using il ge1 by simp
    have e2: "nat (ilen b n) = Suc (nat (ilen b (n div b)))" using il ge1 by simp
    have lo: "b * b ^ nat (ilen b (n div b) - 1) \<le> n"
    proof -
      have "b * b ^ nat (ilen b (n div b) - 1) \<le> b * (n div b)"
        using IH b by (simp add: mult_left_mono)
      then show ?thesis using dm m0 by linarith
    qed
    have hi: "n < b * b ^ nat (ilen b (n div b))"
    proof -
      have "n div b + 1 \<le> b ^ nat (ilen b (n div b))" using IH by simp
      then have "b * (n div b + 1) \<le> b * b ^ nat (ilen b (n div b))"
        using b by (simp add: mult_left_mono)
      moreover have "b * (n div b + 1) = b * (n div b) + b" by (simp add: algebra_simps)
      ultimately show ?thesis using dm mb by linarith
    qed
    show ?thesis using lo hi by (simp add: e1 e2)
  qed
qed

lemma ilen_bounds_rat:
  assumes "0 < n" "1 < b"
  shows "(of_int b :: rat) powi (ilen b n - 1) \<le> of_int n"
    and "(of_int n :: rat) < of_int b powi (ilen b n)"
proof -
  have l1: "1 \<le> ilen b n" using assms by (rule ilen_pos)
  from ilen_bounds [OF assms]
  have lo: "b ^ nat (ilen b n - 1) \<le> n" and hi: "n < b ^ nat (ilen b n)" by auto
  have "(of_int (b ^ nat (ilen b n - 1)) :: rat) \<le> of_int n" using lo by (simp only: of_int_le_iff)
  then show "(of_int b :: rat) powi (ilen b n - 1) \<le> of_int n"
    using l1 by (simp add: power_int_def)
  have "(of_int n :: rat) < of_int (b ^ nat (ilen b n))" using hi by (simp only: of_int_less_iff)
  then show "(of_int n :: rat) < of_int b powi (ilen b n)"
    using l1 by (simp add: power_int_def)
qed

lemma floor_log_bounds:
  assumes a: "0 < a" and b: "1 < b"
  shows "of_int b powi (floor_log b a) \<le> a \<and> a < of_int b powi (floor_log b a + 1)"
proof -
  obtain p q where pq: "quotient_of a = (p, q)" by (cases "quotient_of a")
  have q: "0 < q" using pq by (rule quotient_of_denom_pos)
  have aq: "a = of_int p / of_int q" using pq by (rule quotient_of_div)
  have p: "0 < p" using a q aq by (simp add: zero_less_divide_iff)
  let ?B = "of_int b :: rat"
  have B1: "1 < ?B" using b by simp
  have B0: "?B \<noteq> 0" using b by simp
  let ?e0 = "ilen b p - ilen b q"
  have up: "a < ?B powi (?e0 + 1)"
  proof -
    have "of_int p < ?B powi (ilen b p)" using p b by (rule ilen_bounds_rat)
    moreover have "?B powi (ilen b q - 1) \<le> of_int q" using q b by (rule ilen_bounds_rat)
    moreover have "0 < ?B powi (ilen b q - 1)" using B1 by simp
    ultimately have "of_int p / of_int q < ?B powi (ilen b p) / ?B powi (ilen b q - 1)"
      using q p by (intro frac_less) auto
    also have "\<dots> = ?B powi (?e0 + 1)"
      using B0 power_int_diff [of ?B "ilen b p" "ilen b q - 1"] by (simp add: algebra_simps)
    finally show ?thesis using aq by simp
  qed
  have low: "?B powi (?e0 - 1) \<le> a"
  proof -
    have "?B powi (ilen b p - 1) \<le> of_int p" using p b by (rule ilen_bounds_rat)
    moreover have "of_int q < ?B powi (ilen b q)" using q b by (rule ilen_bounds_rat)
    moreover have "0 < ?B powi (ilen b p - 1)" using B1 by simp
    ultimately have "?B powi (ilen b p - 1) / ?B powi (ilen b q) \<le> of_int p / of_int q"
      using q p by (intro frac_le) auto
    moreover have "?B powi (ilen b p - 1) / ?B powi (ilen b q) = ?B powi (?e0 - 1)"
      using B0 power_int_diff [of ?B "ilen b p - 1" "ilen b q"] by (simp add: algebra_simps)
    ultimately show ?thesis using aq by simp
  qed
  show ?thesis
  proof (cases "?B powi ?e0 \<le> a")
    case True
    then have "floor_log b a = ?e0" by (simp add: floor_log_def pq Let_def)
    then show ?thesis using True up by simp
  next
    case False
    then have "floor_log b a = ?e0 - 1" by (simp add: floor_log_def pq Let_def)
    then show ?thesis using False low by simp
  qed
qed

lemma floor_log_unique:
  assumes b: "1 < b" and lo: "of_int b powi e \<le> a" and hi: "a < of_int b powi (e + 1)"
  shows "floor_log b a = e"
proof -
  let ?B = "of_int b :: rat"
  have B1: "1 \<le> ?B" using b by simp
  have "0 < ?B powi e" using b by simp
  then have a: "0 < a" using lo by linarith
  from floor_log_bounds [OF a b]
  have flo: "?B powi (floor_log b a) \<le> a" and fhi: "a < ?B powi (floor_log b a + 1)" by auto
  have "\<not> floor_log b a < e"
  proof
    assume "floor_log b a < e"
    then have "?B powi (floor_log b a + 1) \<le> ?B powi e"
      using B1 by (intro power_int_increasing) auto
    then show False using fhi lo by linarith
  qed
  moreover have "\<not> e < floor_log b a"
  proof
    assume "e < floor_log b a"
    then have "?B powi (e + 1) \<le> ?B powi (floor_log b a)"
      using B1 by (intro power_int_increasing) auto
    then show False using flo hi by linarith
  qed
  ultimately show ?thesis by simp
qed

section \<open>Rounding to binary64\<close>

lemma round_even_of_int [simp]: "round_even (of_int k) = k"
  by (simp add: round_even_def)

lemma round_even_error: "\<bar>of_int (round_even m) - m\<bar> \<le> 1 / 2"
proof -
  have "of_int \<lfloor>m\<rfloor> \<le> m" "m < of_int \<lfloor>m\<rfloor> + 1" by linarith+
  then show ?thesis by (auto simp: round_even_def Let_def)
qed

lemma round_even_ge: "of_int k \<le> m \<Longrightarrow> k \<le> round_even m"
proof -
  assume "of_int k \<le> m"
  then have "k \<le> \<lfloor>m\<rfloor>" by (simp add: le_floor_iff)
  then show ?thesis by (auto simp: round_even_def Let_def)
qed

lemma round_even_le: "m \<le> of_int k \<Longrightarrow> round_even m \<le> k"
proof -
  assume mk: "m \<le> of_int k"
  show ?thesis
  proof (cases "m = of_int k")
    case True
    then show ?thesis by simp
  next
    case False
    then have "m < of_int k" using mk by simp
    then have "\<lfloor>m\<rfloor> < k" by (simp add: floor_less_iff)
    then show ?thesis by (auto simp: round_even_def Let_def)
  qed
qed

lemma rnd_neg: "q \<noteq> 0 \<Longrightarrow> rnd (- q) = num_neg (rnd q)"
  by (cases "0 < q") (auto simp: rnd_def Let_def)

text \<open>The binary64 values, by significand and exponent.\<close>

lemma rnd_normal:
  assumes n: "2 ^ 52 \<le> n" "n < 2 ^ 53" and e: "- 1022 \<le> e" "e \<le> 1023"
  shows "rnd (of_int n * 2 powi (e - 52)) = Fin (of_int n * 2 powi (e - 52))"
proof -
  let ?x = "of_int n * 2 powi (e - 52) :: rat"
  have npos: "0 < n" using n(1) by (smt (verit) zero_less_power)
  have xpos: "0 < ?x" using npos by simp
  have s: "(2::rat) powi e = 2 ^ 52 * 2 powi (e - 52)"
    using power_int_add [of "2::rat" 52 "e - 52"] by simp
  have s2: "(2::rat) powi (e + 1) = 2 ^ 53 * 2 powi (e - 52)"
    using power_int_add [of "2::rat" 53 "e - 52"] by (simp add: add.commute)
  have n1: "(2::rat) ^ 52 \<le> of_int n"
    using n(1) by (metis of_int_le_iff of_int_numeral of_int_power)
  have n2: "(of_int n :: rat) < 2 ^ 53"
    using n(2) by (metis of_int_less_iff of_int_numeral of_int_power)
  have lo: "of_int 2 powi e \<le> ?x"
    using n1 by (simp add: s mult_right_mono)
  have hi: "?x < of_int 2 powi (e + 1)"
    using n2 by (simp add: s2 mult_strict_right_mono)
  have fl: "floor_log 2 ?x = e"
    by (rule floor_log_unique [OF _ lo hi]) simp
  have ax: "\<bar>?x\<bar> = ?x" using xpos by simp
  have me: "max e (- 1022) = e" using e by simp
  have quo: "?x / 2 powi (e - 52) = of_int n" by simp
  have nov: "\<not> (1023 < e \<or> e = 1023 \<and> n = 2 ^ 53)" using e n(2) by simp
  show ?thesis
    using xpos npos nov unfolding rnd_def Let_def ax fl me quo round_even_of_int
    by simp
qed

lemma rnd_subnormal:
  assumes n: "0 < n" "n < 2 ^ 52"
  shows "rnd (of_int n * 2 powi (- 1074)) = Fin (of_int n * 2 powi (- 1074))"
proof -
  let ?x = "of_int n * 2 powi (- 1074) :: rat"
  have xpos: "0 < ?x" using n(1) by simp
  have n2: "(of_int n :: rat) < 2 ^ 52"
    using n(2) by (metis of_int_less_iff of_int_numeral of_int_power)
  have s: "(2::rat) powi (- 1022) = 2 ^ 52 * 2 powi (- 1074)"
    using power_int_add [of "2::rat" 52 "- 1074"] by simp
  have xlt: "?x < 2 powi (- 1022)" using n2 by (simp only: s mult_strict_right_mono zero_less_power_int zero_less_numeral)
  have "of_int 2 powi (floor_log 2 ?x) \<le> ?x" using floor_log_bounds [OF xpos, of 2] by simp
  then have "(2::rat) powi (floor_log 2 ?x) < 2 powi (- 1022)" using xlt by simp
  then have fl: "floor_log 2 ?x < - 1022"
    by (metis linorder_not_less one_le_numeral power_int_increasing)
  have ax: "\<bar>?x\<bar> = ?x" using xpos by simp
  have me: "max (floor_log 2 ?x) (- 1022) = - 1022" using fl by simp
  have quo: "?x / 2 powi (- 1022 - 52) = of_int n" by simp
  show ?thesis
    using xpos n(1) unfolding rnd_def Let_def ax me quo round_even_of_int
    by simp
qed

lemma pow2_split: "(2::rat) powi e = 2 ^ 52 * 2 powi (e - 52)"
  using power_int_add [of "2::rat" 52 "e - 52"] by simp

lemma pow2_split': "(2::rat) powi (e + 1) = 2 ^ 53 * 2 powi (e - 52)"
  using power_int_add [of "2::rat" 53 "e - 52"] by (simp add: add.commute)

text \<open>The significand that rounding a positive rational produces.\<close>

lemma significand_bounds:
  assumes q: "0 < q"
  defines "e \<equiv> max (floor_log 2 q) (- 1022)"
  defines "n \<equiv> round_even (q / 2 powi (e - 52))"
  shows "0 \<le> n" and "n \<le> 2 ^ 53"
    and "- 1022 \<le> floor_log 2 q \<Longrightarrow> 2 ^ 52 \<le> n"
    and "floor_log 2 q < - 1022 \<Longrightarrow> n \<le> 2 ^ 52"
proof -
  let ?u = "2 powi (e - 52) :: rat"
  have u: "0 < ?u" by simp
  from floor_log_bounds [OF q, of 2]
  have lo: "2 powi (floor_log 2 q) \<le> q" and hi: "q < 2 powi (floor_log 2 q + 1)" by auto
  have "of_int 0 \<le> q / ?u" using q by simp
  then show "0 \<le> n" unfolding n_def by (rule round_even_ge)
  have "(2::rat) powi (floor_log 2 q + 1) \<le> 2 powi (e + 1)"
    unfolding e_def by (intro power_int_increasing) auto
  then have "q < 2 powi (e + 1)" using hi by linarith
  then have "q < 2 ^ 53 * ?u" unfolding pow2_split' [of e] .
  then have "q / ?u < 2 ^ 53" using u by (simp only: pos_divide_less_eq)
  then have "q / ?u \<le> of_int (2 ^ 53)" by simp
  then show "n \<le> 2 ^ 53" unfolding n_def by (rule round_even_le)
  show "2 ^ 52 \<le> n" if "- 1022 \<le> floor_log 2 q"
  proof -
    have "e = floor_log 2 q" using that by (simp add: e_def)
    then have "2 powi e \<le> q" using lo by simp
    then have "2 ^ 52 * ?u \<le> q" unfolding pow2_split [of e] .
    then have "2 ^ 52 \<le> q / ?u" using u by (simp only: pos_le_divide_eq)
    then have "of_int (2 ^ 52) \<le> q / ?u" by simp
    then show ?thesis unfolding n_def by (rule round_even_ge)
  qed
  show "n \<le> 2 ^ 52" if "floor_log 2 q < - 1022"
  proof -
    have e: "e = - 1022" using that by (simp add: e_def)
    have "(2::rat) powi (floor_log 2 q + 1) \<le> 2 powi e"
      using that unfolding e by (intro power_int_increasing) auto
    then have "q < 2 powi e" using hi by linarith
    then have "q < 2 ^ 52 * ?u" unfolding pow2_split [of e] .
    then have "q / ?u < 2 ^ 52" using u by (simp only: pos_divide_less_eq)
    then have "q / ?u \<le> of_int (2 ^ 52)" by simp
    then show ?thesis unfolding n_def by (rule round_even_le)
  qed
qed

text \<open>What rounding a positive rational gives.\<close>

lemma rnd_pos_cases:
  assumes q: "0 < q"
  shows "rnd q = PosInf \<or> rnd q = Fin 0 \<or>
     (\<exists>n e. rnd q = Fin (of_int n * 2 powi (e - 52)) \<and> 2 ^ 52 \<le> n \<and> n < 2 ^ 53 \<and>
        - 1022 \<le> e \<and> e \<le> 1023) \<or>
     (\<exists>n. rnd q = Fin (of_int n * 2 powi (- 1074)) \<and> 0 < n \<and> n < 2 ^ 52)"
proof -
  define e where "e = max (floor_log 2 q) (- 1022)"
  define n where "n = round_even (q / 2 powi (e - 52))"
  note sb = significand_bounds [OF q, folded e_def n_def]
  have r: "rnd q = (if 1023 < e \<or> (e = 1023 \<and> n = 2 ^ 53) then PosInf
                    else if n = 0 then Fin 0 else Fin (of_int n * 2 powi (e - 52)))"
  proof -
    have a: "\<bar>q\<bar> = q" and b: "(q = 0) = False" and c: "(0 < q) = True" using q by auto
    show ?thesis
      unfolding rnd_def Let_def a e_def [symmetric] n_def [symmetric]
      by (simp only: b c if_True if_False)
  qed
  have e1: "- 1022 \<le> e" by (simp add: e_def)
  show ?thesis
  proof (cases "1023 < e \<or> (e = 1023 \<and> n = 2 ^ 53)")
    case True
    then show ?thesis using r by simp
  next
    case nov: False
    show ?thesis
    proof (cases "n = 0")
      case True
      then show ?thesis using r nov by simp
    next
      case n0: False
      have rr: "rnd q = Fin (of_int n * 2 powi (e - 52))" using r nov n0 by simp
      consider (carry) "n = 2 ^ 53" | (normal) "2 ^ 52 \<le> n" "n < 2 ^ 53" | (sub) "n < 2 ^ 52"
        using sb(2) by linarith
      then show ?thesis
      proof cases
        case carry
        then have e2: "e < 1023" using nov by auto
        have "of_int n * 2 powi (e - 52) = (of_int (2 ^ 52) :: rat) * 2 powi ((e + 1) - 52)"
          using carry pow2_split' [of e] pow2_split [of "e + 1"] by simp
        then have "rnd q = Fin (of_int (2 ^ 52) * 2 powi ((e + 1) - 52))" using rr by simp
        moreover have "(2::int) ^ 52 \<le> 2 ^ 52" "(2::int) ^ 52 < 2 ^ 53" by simp_all
        moreover have "- 1022 \<le> e + 1" "e + 1 \<le> 1023" using e1 e2 by simp_all
        ultimately show ?thesis by blast
      next
        case normal
        have "e \<le> 1023" using nov by auto
        then show ?thesis using rr normal e1 by blast
      next
        case sub
        have "floor_log 2 q < - 1022"
        proof (rule ccontr)
          assume "\<not> floor_log 2 q < - 1022"
          then have "2 ^ 52 \<le> n" using sb(3) by simp
          then show False using sub by simp
        qed
        then have "e = - 1022" by (simp add: e_def)
        then have "rnd q = Fin (of_int n * 2 powi (- 1074))" using rr by simp
        moreover have "0 < n" using sb(1) n0 by simp
        ultimately show ?thesis using sub by blast
      qed
    qed
  qed
qed

lemma rnd_idem_pos:
  assumes q: "0 < q" and r: "rnd q = Fin x"
  shows "rnd x = Fin x"
proof -
  have z: "rnd (0::rat) = Fin 0" by (simp add: rnd_def)
  from rnd_pos_cases [OF q] r consider
      (zero) "x = 0"
    | (normal) n e where "x = of_int n * 2 powi (e - 52)" "2 ^ 52 \<le> n" "n < 2 ^ 53"
        "- 1022 \<le> e" "e \<le> 1023"
    | (sub) n where "x = of_int n * 2 powi (- 1074)" "0 < n" "n < 2 ^ 52"
    by auto
  then show ?thesis
  proof cases
    case zero
    then show ?thesis using z by simp
  next
    case normal
    show ?thesis unfolding normal(1) using normal(2-5) by (rule rnd_normal)
  next
    case sub
    show ?thesis unfolding sub(1) using sub(2,3) by (rule rnd_subnormal)
  qed
qed

lemma rnd_idem: "rnd q = Fin x \<Longrightarrow> rnd x = Fin x"
proof -
  assume r: "rnd q = Fin x"
  consider "q = 0" | "0 < q" | "q < 0" by linarith
  then show ?thesis
  proof cases
    case 1
    then show ?thesis using r by (simp add: rnd_def)
  next
    case 2
    then show ?thesis using r by (rule rnd_idem_pos)
  next
    case 3
    then have q: "0 < - q" by simp
    have "rnd q = num_neg (rnd (- q))" using rnd_neg [of "- q"] 3 by simp
    then have nn: "num_neg (rnd (- q)) = Fin x" using r by simp
    moreover have "rnd (- q) \<noteq> NegZero" using q by (simp add: rnd_def Let_def)
    ultimately have "rnd (- q) = Fin (- x) \<and> x \<noteq> 0"
      by (cases "rnd (- q)") (auto split: if_splits)
    then have a: "rnd (- q) = Fin (- x)" and x0: "x \<noteq> 0" by auto
    have "rnd (- x) = Fin (- x)" using q a by (rule rnd_idem_pos)
    then show ?thesis using rnd_neg [of "- x"] x0 by simp
  qed
qed

section \<open>Digit strings\<close>

subsection \<open>Digits\<close>

lemma is_digit_digit_char: "0 \<le> d \<Longrightarrow> d < 10 \<Longrightarrow> is_digit (digit_char d)"
  by (simp add: is_digit_def digit_char_def)

lemma digit_of_digit_char: "0 \<le> d \<Longrightarrow> d < 10 \<Longrightarrow> digit_of (digit_char d) = d"
  by (simp add: digit_of_def digit_char_def)

lemma digit_not_special:
  assumes "is_digit c"
  shows "c \<noteq> CHR ''.''" "c \<noteq> CHR ''e''" "c \<noteq> CHR ''E''" "c \<noteq> CHR ''-''" "c \<noteq> CHR ''+''"
    "c \<noteq> CHR ''I''" "\<not> is_ws c"
  using assms by (auto simp: is_digit_def is_ws_def)

lemma not_digit_special:
  "\<not> is_digit CHR ''.''" "\<not> is_digit CHR ''e''" "\<not> is_digit CHR ''-''" "\<not> is_digit CHR ''+''"
  "\<not> is_ws CHR ''-''"
  by (simp_all add: is_digit_def is_ws_def)

lemma digits_val_snoc: "digits_val (ds @ [c]) = 10 * digits_val ds + digit_of c"
  by (simp add: digits_val_def)

lemma digits_val_Nil [simp]: "digits_val [] = 0"
  by (simp add: digits_val_def)

lemma digits_val_append:
  "digits_val (xs @ ys) = digits_val xs * 10 ^ length ys + digits_val ys"
proof (induction ys rule: rev_induct)
  case Nil
  then show ?case by simp
next
  case (snoc y ys)
  have "digits_val (xs @ ys @ [y]) = 10 * digits_val (xs @ ys) + digit_of y"
    using digits_val_snoc [of "xs @ ys" y] by simp
  then show ?case using snoc by (simp add: digits_val_snoc algebra_simps)
qed

lemma digits_val_zeros: "digits_val (replicate k CHR ''0'') = 0"
proof (induction k)
  case 0
  then show ?case by simp
next
  case (Suc k)
  have "replicate (Suc k) CHR ''0'' = replicate k CHR ''0'' @ [CHR ''0'']"
    by (simp add: replicate_append_same)
  then show ?case using Suc by (simp add: digits_val_snoc digit_of_def)
qed

lemma digits_val_pad: "digits_val (replicate k CHR ''0'' @ ds) = digits_val ds"
  by (simp add: digits_val_append digits_val_zeros)

lemma is_digit_zero: "is_digit CHR ''0''"
  by (simp add: is_digit_def)

lemma show_nat_digits: "0 \<le> n \<Longrightarrow> list_all is_digit (show_nat n)"
proof (induction n rule: show_nat.induct)
  case (1 n)
  show ?case
  proof (cases "n < 10")
    case True
    then show ?thesis using 1(2) by (subst show_nat.simps) (simp add: is_digit_digit_char)
  next
    case False
    then have "0 \<le> n div 10" by simp
    then have "list_all is_digit (show_nat (n div 10))" using 1(1) False by simp
    moreover have "is_digit (digit_char (n mod 10))" by (simp add: is_digit_digit_char)
    ultimately show ?thesis using False by (subst show_nat.simps) simp
  qed
qed

lemma show_nat_nonempty: "show_nat n \<noteq> []"
  by (subst show_nat.simps) simp

lemma digits_val_show_nat: "0 \<le> n \<Longrightarrow> digits_val (show_nat n) = n"
proof (induction n rule: show_nat.induct)
  case (1 n)
  show ?case
  proof (cases "n < 10")
    case True
    then show ?thesis using 1(2)
      by (subst show_nat.simps) (simp add: digits_val_def digit_of_digit_char)
  next
    case False
    then have "digits_val (show_nat (n div 10)) = n div 10" using 1(1) by simp
    then show ?thesis using False
      by (subst show_nat.simps) (simp add: digits_val_snoc digit_of_digit_char)
  qed
qed

lemma length_show_nat: "0 < n \<Longrightarrow> int (length (show_nat n)) = ilen 10 n"
proof (induction n rule: show_nat.induct)
  case (1 n)
  show ?case
  proof (cases "n < 10")
    case True
    then have "n div 10 = 0" using 1(2) by simp
    then have "ilen 10 (n div 10) = 0" by (subst ilen.simps) simp
    then have "ilen 10 n = 1" using 1(2) by (simp add: ilen_step)
    then show ?thesis using True by (subst show_nat.simps) simp
  next
    case False
    then have "0 < n div 10" by simp
    then have "int (length (show_nat (n div 10))) = ilen 10 (n div 10)" using 1(1) False by simp
    then show ?thesis using False 1(2) by (subst show_nat.simps) (simp add: ilen_step)
  qed
qed

lemma ilen_unique:
  assumes b: "1 < b" and k: "1 \<le> k" and lo: "b ^ nat (k - 1) \<le> n" and hi: "n < b ^ nat k"
  shows "ilen b n = k"
proof -
  have n: "0 < n" using lo b by (smt (verit) zero_less_power)
  from ilen_bounds [OF n b]
  have ilo: "b ^ nat (ilen b n - 1) \<le> n" and ihi: "n < b ^ nat (ilen b n)" by auto
  have l1: "1 \<le> ilen b n" using n b by (rule ilen_pos)
  have "\<not> ilen b n < k"
  proof
    assume "ilen b n < k"
    then have "nat (ilen b n) \<le> nat (k - 1)" by simp
    then have "b ^ nat (ilen b n) \<le> b ^ nat (k - 1)"
      using b by (intro power_increasing) auto
    then show False using ihi lo by linarith
  qed
  moreover have "\<not> k < ilen b n"
  proof
    assume "k < ilen b n"
    then have "nat k \<le> nat (ilen b n - 1)" by simp
    then have "b ^ nat k \<le> b ^ nat (ilen b n - 1)"
      using b by (intro power_increasing) auto
    then show False using ilo hi by linarith
  qed
  ultimately show ?thesis by simp
qed

lemma length_show_nat_digits:
  assumes "1 \<le> k" "10 ^ nat (k - 1) \<le> s" "s < 10 ^ nat k"
  shows "int (length (show_nat s)) = k"
proof -
  have "0 < s" using assms(2) by (smt (verit) zero_less_power)
  then have "int (length (show_nat s)) = ilen 10 s" by (rule length_show_nat)
  also have "\<dots> = k" using assms by (intro ilen_unique) auto
  finally show ?thesis .
qed

subsection \<open>Reading what was written\<close>

lemma span_digits:
  assumes "list_all is_digit ds" and "rest = [] \<or> \<not> is_digit (hd rest)"
  shows "takeWhile is_digit (ds @ rest) = ds" and "dropWhile is_digit (ds @ rest) = rest"
proof -
  have a: "\<And>x. x \<in> set ds \<Longrightarrow> is_digit x" using assms(1) by (simp add: list_all_iff)
  have t: "takeWhile is_digit rest = []" and d: "dropWhile is_digit rest = rest"
    using assms(2) by (cases rest; simp)+
  show "takeWhile is_digit (ds @ rest) = ds" using a t by (simp add: takeWhile_append2)
  show "dropWhile is_digit (ds @ rest) = rest" using a d by (simp add: dropWhile_append2)
qed

lemma strip_Infinity_digit: "is_digit c \<Longrightarrow> strip_prefix ''Infinity'' (c # r) = None"
  using digit_not_special(6) [of c] by auto

lemma exponent_part_Nil: "exponent_part [] = (0, [])"
  by (simp add: exponent_part_def)

lemma exponent_part_plus:
  assumes "ed \<noteq> []" "list_all is_digit ed"
  shows "exponent_part (CHR ''e'' # CHR ''+'' # ed) = (digits_val ed, [])"
proof -
  have t: "takeWhile is_digit ed = ed" and d: "dropWhile is_digit ed = []"
    using span_digits [OF assms(2), of "[]"] by simp_all
  show ?thesis using assms(1) by (simp add: exponent_part_def Let_def t d)
qed

lemma unsigned_decimal_fixed:
  assumes "ip \<noteq> []" "list_all is_digit ip" "list_all is_digit fp"
  shows "unsigned_decimal (ip @ CHR ''.'' # fp) =
         Some (Some (of_int (digits_val (ip @ fp)) * 10 powi (- int (length fp))), [])"
proof -
  obtain c r where ip: "ip = c # r" using assms(1) by (cases ip) auto
  have c: "is_digit c" using assms(2) ip by simp
  have si: "strip_prefix ''Infinity'' (ip @ CHR ''.'' # fp) = None"
    using strip_Infinity_digit [OF c] ip by simp
  have t1: "takeWhile is_digit (ip @ CHR ''.'' # fp) = ip"
    and d1: "dropWhile is_digit (ip @ CHR ''.'' # fp) = CHR ''.'' # fp"
    using span_digits [OF assms(2), of "CHR ''.'' # fp"] not_digit_special by simp_all
  have t2: "takeWhile is_digit fp = fp" and d2: "dropWhile is_digit fp = []"
    using span_digits [OF assms(3), of "[]"] by simp_all
  show ?thesis
    unfolding unsigned_decimal_def si Let_def t1 d1
    using assms(1) by (simp add: t2 d2 exponent_part_Nil)
qed

lemma unsigned_decimal_exp_frac:
  assumes "ip \<noteq> []" "list_all is_digit ip" "list_all is_digit fp" "ed \<noteq> []" "list_all is_digit ed"
  shows "unsigned_decimal (ip @ CHR ''.'' # fp @ CHR ''e'' # CHR ''+'' # ed) =
         Some (Some (of_int (digits_val (ip @ fp)) * 10 powi (digits_val ed - int (length fp))), [])"
proof -
  let ?ex = "CHR ''e'' # CHR ''+'' # ed"
  obtain c r where ip: "ip = c # r" using assms(1) by (cases ip) auto
  have c: "is_digit c" using assms(2) ip by simp
  have si: "strip_prefix ''Infinity'' (ip @ CHR ''.'' # fp @ ?ex) = None"
    using strip_Infinity_digit [OF c] ip by simp
  have t1: "takeWhile is_digit (ip @ CHR ''.'' # fp @ ?ex) = ip"
    and d1: "dropWhile is_digit (ip @ CHR ''.'' # fp @ ?ex) = CHR ''.'' # fp @ ?ex"
    using span_digits [OF assms(2), of "CHR ''.'' # fp @ ?ex"] not_digit_special by simp_all
  have t2: "takeWhile is_digit (fp @ ?ex) = fp" and d2: "dropWhile is_digit (fp @ ?ex) = ?ex"
    using span_digits [OF assms(3), of ?ex] not_digit_special by simp_all
  show ?thesis
    unfolding unsigned_decimal_def si Let_def t1 d1
    using assms(1) by (simp add: t2 d2 exponent_part_plus [OF assms(4,5)])
qed

lemma unsigned_decimal_exp_int:
  assumes "ip \<noteq> []" "list_all is_digit ip" "ed \<noteq> []" "list_all is_digit ed"
  shows "unsigned_decimal (ip @ CHR ''e'' # CHR ''+'' # ed) =
         Some (Some (of_int (digits_val ip) * 10 powi (digits_val ed)), [])"
proof -
  let ?ex = "CHR ''e'' # CHR ''+'' # ed"
  obtain c r where ip: "ip = c # r" using assms(1) by (cases ip) auto
  have c: "is_digit c" using assms(2) ip by simp
  have si: "strip_prefix ''Infinity'' (ip @ ?ex) = None"
    using strip_Infinity_digit [OF c] ip by simp
  have t1: "takeWhile is_digit (ip @ ?ex) = ip"
    and d1: "dropWhile is_digit (ip @ ?ex) = ?ex"
    using span_digits [OF assms(2), of ?ex] not_digit_special by simp_all
  show ?thesis
    unfolding unsigned_decimal_def si Let_def t1 d1
    using assms(1) not_digit_special by (simp add: exponent_part_plus [OF assms(3,4)])
qed

lemma parseFloat_string_unsigned:
  assumes "is_digit c" "unsigned_decimal (c # r) = Some (Some q, rest)"
  shows "parseFloat_string (c # r) = rnd q"
    and "parseFloat_string (CHR ''-'' # c # r) = num_neg (rnd q)"
  using assms digit_not_special [OF assms(1)] not_digit_special
  by (simp_all add: parseFloat_string_def decimal_literal_def mv_number_def)

section \<open>Reading back fixed-point and exponent notation\<close>

lemma toFixed2_magnitude_small:
  assumes x: "0 \<le> x" "x < 10 ^ 21"
  shows "\<exists>c r. toFixed2_magnitude x = c # r \<and> is_digit c \<and>
           unsigned_decimal (c # r) = Some (Some (of_int \<lfloor>x * 100 + 1 / 2\<rfloor> / 100), [])"
proof -
  define n where "n = \<lfloor>x * 100 + 1 / 2\<rfloor>"
  define m where "m = show_nat n"
  define m' where "m' = replicate (3 - length m) CHR ''0'' @ m"
  define k where "k = length m'"
  define ip where "ip = take (k - 2) m'"
  define fp where "fp = drop (k - 2) m'"
  have n0: "0 \<le> n" using x(1) by (simp add: n_def)
  have md: "list_all is_digit m" unfolding m_def using n0 by (rule show_nat_digits)
  have m'd: "list_all is_digit m'"
    unfolding m'_def using md is_digit_zero by (auto simp: list_all_iff)
  have k3: "3 \<le> k" unfolding k_def m'_def by simp
  have ipne: "ip \<noteq> []" unfolding ip_def using k3 k_def by auto
  have ipd: "list_all is_digit ip"
    unfolding ip_def using m'd by (auto simp: list_all_iff dest: in_set_takeD)
  have fpd: "list_all is_digit fp"
    unfolding fp_def using m'd by (auto simp: list_all_iff dest: in_set_dropD)
  have fpl: "length fp = 2" unfolding fp_def using k3 k_def by simp
  have cat: "ip @ fp = m'" unfolding ip_def fp_def by simp
  have dv: "digits_val (ip @ fp) = n"
    unfolding cat m'_def m_def using n0 by (simp add: digits_val_pad digits_val_show_nat)
  have tf: "toFixed2_magnitude x = ip @ CHR ''.'' # fp"
    using x(2) unfolding toFixed2_magnitude_def Let_def n_def [symmetric] m_def [symmetric]
      m'_def [symmetric] k_def [symmetric] ip_def fp_def
    by simp
  obtain c r where cr: "ip = c # r" using ipne by (cases ip) auto
  have c: "is_digit c" using ipd cr by simp
  have "unsigned_decimal (ip @ CHR ''.'' # fp) =
        Some (Some (of_int (digits_val (ip @ fp)) * 10 powi (- int (length fp))), [])"
    using ipne ipd fpd by (rule unsigned_decimal_fixed)
  then have "unsigned_decimal (ip @ CHR ''.'' # fp) = Some (Some (of_int n / 100), [])"
    unfolding dv fpl by (simp add: power_int_minus field_simps)
  then show ?thesis using tf cr c by (simp add: n_def)
qed

lemma pow10_21_ge: "(2::rat) ^ 53 \<le> 10 ^ 21"
  by simp

lemma binary64_large_is_int:
  assumes r: "rnd x = Fin x" and x: "2 ^ 53 \<le> x"
  shows "\<exists>k::int. 0 < k \<and> x = of_int k"
proof -
  have "(0::rat) < 2 ^ 53" by simp
  then have xpos: "0 < x" using x by linarith
  have x0: "x \<noteq> 0" using xpos by simp
  from rnd_pos_cases [OF xpos] r x0 consider
      (normal) n e where "x = of_int n * 2 powi (e - 52)" "2 ^ 52 \<le> n" "n < 2 ^ 53"
    | (sub) n where "x = of_int n * 2 powi (- 1074)" "0 < n" "n < 2 ^ 52"
    by auto
  then show ?thesis
  proof cases
    case normal
    have n2: "(of_int n :: rat) < 2 ^ 53"
      using normal(3) by (metis of_int_less_iff of_int_numeral of_int_power)
    have npos: "(0::rat) < of_int n" using normal(2) by simp
    have "0 < e - 52"
    proof (rule ccontr)
      assume "\<not> 0 < e - 52"
      then have "(2::rat) powi (e - 52) \<le> 2 powi 0"
        by (intro power_int_increasing) auto
      then have "(2::rat) powi (e - 52) \<le> 1" by simp
      then have "of_int n * 2 powi (e - 52) \<le> (of_int n :: rat) * 1"
        using npos by (intro mult_left_mono) auto
      then show False using normal(1) n2 x by linarith
    qed
    then have "(2::rat) powi (e - 52) = of_int (2 ^ nat (e - 52))"
      by (simp add: power_int_def)
    then have "x = of_int (n * 2 ^ nat (e - 52))" using normal(1) by simp
    moreover have "0 < n * 2 ^ nat (e - 52)" using normal(2) by simp
    ultimately show ?thesis by blast
  next
    case sub
    have n2: "(of_int n :: rat) < 2 ^ 52"
      using sub(3) by (metis of_int_less_iff of_int_numeral of_int_power)
    have "(2::rat) powi (- 1074) \<le> 2 powi 0"
      by (intro power_int_increasing) auto
    then have "(2::rat) powi (- 1074) \<le> 1" by simp
    moreover have "(0::rat) < of_int n" using sub(2) by simp
    ultimately have "of_int n * 2 powi (- 1074) \<le> (of_int n :: rat) * 1"
      by (intro mult_left_mono) auto
    then have "x < 2 ^ 52" using sub(1) n2 by linarith
    moreover have "(2::rat) ^ 52 \<le> 2 ^ 53" by simp
    ultimately show ?thesis using x by linarith
  qed
qed

lemma pow10_quot: "(10::rat) powi a / 10 powi b = 10 powi (a - b)"
  using power_int_diff [of "10::rat" a b] by simp

text \<open>The candidates of \<open>k\<close> digits, for an integer \<open>x\<close> with \<open>10^(n0-1) \<le> x < 10^n0\<close>.\<close>

lemma repr_candidate_sound:
  assumes lo: "10 powi (n0 - 1) \<le> x" and hi: "x < 10 powi n0" and k: "1 \<le> k"
    and c: "repr_candidate x n0 k = Some (s, k', n)"
  shows "1 \<le> k' \<and> 10 ^ nat (k' - 1) \<le> s \<and> s < 10 ^ nat k' \<and> n0 \<le> n \<and>
         rnd (of_int s * 10 powi (n - k')) = Fin x"
proof -
  define scale :: rat where "scale = 10 powi (n0 - k)"
  define l where "l = \<lfloor>x / scale\<rfloor>"
  have sp: "0 < scale" by (simp add: scale_def)
  have "10 powi (n0 - 1) / scale \<le> x / scale" using lo sp by (simp add: divide_right_mono)
  then have "10 powi (k - 1) \<le> x / scale"
    unfolding scale_def pow10_quot by (simp add: algebra_simps)
  then have "of_int (10 ^ nat (k - 1)) \<le> x / scale" using k by (simp add: power_int_def)
  then have llo: "10 ^ nat (k - 1) \<le> l" unfolding l_def by (simp only: le_floor_iff)
  have "x / scale < 10 powi n0 / scale" using hi sp by (simp add: divide_strict_right_mono)
  then have "x / scale < 10 powi k"
    unfolding scale_def pow10_quot by (simp add: algebra_simps)
  then have "x / scale < of_int (10 ^ nat k)" using k by (simp add: power_int_def)
  then have lhi: "l < 10 ^ nat k" unfolding l_def by (simp only: floor_less_iff)
  have top: "of_int (10 ^ nat k) * scale = 10 powi n0"
  proof -
    have "of_int (10 ^ nat k) = (10::rat) powi k" using k by (simp add: power_int_def)
    then show ?thesis
      unfolding scale_def using power_int_add [of "10::rat" k "n0 - k"] by simp
  qed
  define oklo where "oklo = (rnd (of_int l * scale) = Fin x)"
  define okhi where "okhi = (rnd (of_int (l + 1) * scale) = Fin x)"
  define pick_hi where "pick_hi = (okhi \<and> (\<not> oklo \<or> of_int (l + 1) * scale - x < x - of_int l * scale \<or>
      (of_int (l + 1) * scale - x = x - of_int l * scale \<and> even (l + 1))))"
  have rc: "repr_candidate x n0 k =
      (if pick_hi then (if l + 1 = 10 ^ nat k then Some (1, 1, n0 + 1) else Some (l + 1, k, n0))
       else if oklo then Some (l, k, n0) else None)"
    unfolding repr_candidate_def Let_def scale_def [symmetric] l_def [symmetric]
      oklo_def [symmetric] okhi_def [symmetric] pick_hi_def [symmetric] ..
  consider (carry) "pick_hi" "l + 1 = 10 ^ nat k" | (up) "pick_hi" "l + 1 \<noteq> 10 ^ nat k"
    | (down) "\<not> pick_hi" "oklo"
    using c rc by (auto split: if_splits)
  then show ?thesis
  proof cases
    case carry
    then have res: "s = 1" "k' = 1" "n = n0 + 1" using c rc by auto
    have "okhi" using carry(1) by (simp add: pick_hi_def)
    then have "rnd (10 powi n0) = Fin x" using carry(2) top by (simp add: okhi_def)
    then show ?thesis using res by simp
  next
    case up
    then have res: "s = l + 1" "k' = k" "n = n0" using c rc by auto
    have "okhi" using up(1) by (simp add: pick_hi_def)
    then have "rnd (of_int (l + 1) * scale) = Fin x" by (simp add: okhi_def)
    moreover have "l + 1 < 10 ^ nat k" using lhi up(2) by linarith
    ultimately show ?thesis using res llo k by (simp add: scale_def)
  next
    case down
    then have res: "s = l" "k' = k" "n = n0" using c rc by auto
    have "rnd (of_int l * scale) = Fin x" using down(2) by (simp add: oklo_def)
    then show ?thesis using res llo lhi k by (simp add: scale_def)
  qed
qed

lemma repr_candidate_complete:
  assumes r: "rnd x = Fin x" and xi: "x = of_int X" and k: "n0 \<le> k"
  shows "repr_candidate x n0 k \<noteq> None"
proof -
  define scale :: rat where "scale = 10 powi (n0 - k)"
  have sc: "scale = 1 / of_int (10 ^ nat (k - n0))"
  proof -
    have "n0 - k = - (k - n0)" by simp
    then have "scale = 1 / 10 powi (k - n0)" unfolding scale_def by (simp only: power_int_minus_divide)
    then show ?thesis using k by (simp add: power_int_def)
  qed
  have "x / scale = of_int (X * 10 ^ nat (k - n0))" by (simp add: sc xi)
  then have fl: "\<lfloor>x / scale\<rfloor> = X * 10 ^ nat (k - n0)" by (simp only: floor_of_int)
  have "of_int (X * 10 ^ nat (k - n0)) * scale = x" by (simp add: sc xi)
  then have "rnd (of_int \<lfloor>x / scale\<rfloor> * scale) = Fin x" using r fl by simp
  then show ?thesis
    unfolding repr_candidate_def Let_def scale_def [symmetric] by simp
qed

lemma shortest_repr_sound:
  "rnd x = Fin x \<Longrightarrow> x = of_int X \<Longrightarrow> 10 powi (n0 - 1) \<le> x \<Longrightarrow> x < 10 powi n0 \<Longrightarrow>
   1 \<le> k \<Longrightarrow> shortest_repr x n0 k = (s, k', n) \<Longrightarrow>
   1 \<le> k' \<and> 10 ^ nat (k' - 1) \<le> s \<and> s < 10 ^ nat k' \<and> n0 \<le> n \<and>
   rnd (of_int s * 10 powi (n - k')) = Fin x"
proof (induction x n0 k rule: shortest_repr.induct)
  case (1 x n0 k)
  note r = 1(2) and xi = 1(3) and lo = 1(4) and hi = 1(5) and k = 1(6) and res = 1(7)
  show ?case
  proof (cases "repr_candidate x n0 k")
    case (Some t)
    then have "repr_candidate x n0 k = Some (s, k', n)"
      using res by (subst (asm) shortest_repr.simps) simp
    with lo hi k show ?thesis by (rule repr_candidate_sound)
  next
    case None
    have "k < n0"
    proof (rule ccontr)
      assume "\<not> k < n0"
      then have "n0 \<le> k" by simp
      with r xi have "repr_candidate x n0 k \<noteq> None" by (rule repr_candidate_complete)
      then show False using None by simp
    qed
    then have lt: "k < n0 + 1074" by simp
    have rec: "shortest_repr x n0 (k + 1) = (s, k', n)"
      using res None lt by (subst (asm) shortest_repr.simps) simp
    have k1: "1 \<le> k + 1" using k by simp
    show ?thesis using 1(1) [OF None lt r xi lo hi k1 rec] .
  qed
qed

lemma num_to_string_large:
  assumes r: "rnd x = Fin x" and x: "10 ^ 21 \<le> x"
  shows "\<exists>c t q. num_to_string (Fin x) = c # t \<and> is_digit c \<and>
           unsigned_decimal (c # t) = Some (Some q, []) \<and> rnd q = Fin x"
proof -
  have "(0::rat) < 10 ^ 21" by simp
  then have xpos: "0 < x" using x by linarith
  have "2 ^ 53 \<le> x" using x pow10_21_ge by linarith
  with r obtain X where xi: "x = of_int X" using binary64_large_is_int by blast
  define n0 where "n0 = floor_log 10 x + 1"
  from floor_log_bounds [OF xpos, of 10]
  have lo: "10 powi (n0 - 1) \<le> x" and hi: "x < 10 powi n0" by (simp_all add: n0_def)
  have n0: "21 < n0"
  proof (rule ccontr)
    assume "\<not> 21 < n0"
    then have "(10::rat) powi n0 \<le> 10 powi 21" by (intro power_int_increasing) auto
    then show False using hi x by simp
  qed
  obtain s k n where sr: "shortest_repr x n0 1 = (s, k, n)" by (cases "shortest_repr x n0 1")
  from shortest_repr_sound [OF r xi lo hi _ sr]
  have k: "1 \<le> k" and slo: "10 ^ nat (k - 1) \<le> s" and shi: "s < 10 ^ nat k"
    and n: "n0 \<le> n" and rt: "rnd (of_int s * 10 powi (n - k)) = Fin x" by auto
  define ds where "ds = show_nat s"
  define ed where "ed = show_nat (n - 1)"
  have s0: "0 \<le> s" using slo by (smt (verit) zero_less_power)
  have dsd: "list_all is_digit ds" unfolding ds_def using s0 by (rule show_nat_digits)
  have dsl: "int (length ds) = k" unfolding ds_def using k slo shi by (rule length_show_nat_digits)
  have dsv: "digits_val ds = s" unfolding ds_def using s0 by (rule digits_val_show_nat)
  have n1: "0 \<le> n - 1" using n n0 by simp
  have edd: "list_all is_digit ed" unfolding ed_def using n1 by (rule show_nat_digits)
  have edne: "ed \<noteq> []" unfolding ed_def by (rule show_nat_nonempty)
  have edv: "digits_val ed = n - 1" unfolding ed_def using n1 by (rule digits_val_show_nat)
  have se: "show_exponent (n - 1) = CHR ''+'' # ed" using n1 by (simp add: show_exponent_def ed_def)
  have nbig: "\<not> n \<le> 21" using n n0 by simp
  have sp: "show_positive x =
      (if k = 1 then ds @ CHR ''e'' # CHR ''+'' # ed
       else take 1 ds @ CHR ''.'' # drop 1 ds @ CHR ''e'' # CHR ''+'' # ed)"
    using nbig n n0 unfolding show_positive_def n0_def [symmetric] sr Let_def
    by (simp add: ds_def se)
  have ns: "num_to_string (Fin x) = show_positive x" using xpos by simp
  obtain c t where ct: "ds = c # t" using dsl k by (cases ds) auto
  have c: "is_digit c" using dsd ct by simp
  show ?thesis
  proof (cases "k = 1")
    case True
    have dne: "ds \<noteq> []" using ct by simp
    have "unsigned_decimal (ds @ CHR ''e'' # CHR ''+'' # ed) =
          Some (Some (of_int (digits_val ds) * 10 powi (digits_val ed)), [])"
      using dne dsd edne edd by (rule unsigned_decimal_exp_int)
    then have "unsigned_decimal (ds @ CHR ''e'' # CHR ''+'' # ed) =
          Some (Some (of_int s * 10 powi (n - k)), [])"
      using True by (simp add: dsv edv)
    then show ?thesis using ns sp True ct c rt by auto
  next
    case False
    define ip where "ip = take 1 ds"
    define fp where "fp = drop 1 ds"
    have ipne: "ip \<noteq> []" unfolding ip_def using ct by simp
    have ipd: "list_all is_digit ip"
      unfolding ip_def using dsd by (auto simp: list_all_iff dest: in_set_takeD)
    have fpd: "list_all is_digit fp"
      unfolding fp_def using dsd by (auto simp: list_all_iff dest: in_set_dropD)
    have fpl: "int (length fp) = k - 1" unfolding fp_def using dsl k by simp
    have cat: "ip @ fp = ds" unfolding ip_def fp_def by simp
    have "unsigned_decimal (ip @ CHR ''.'' # fp @ CHR ''e'' # CHR ''+'' # ed) =
          Some (Some (of_int (digits_val (ip @ fp)) * 10 powi (digits_val ed - int (length fp))), [])"
      using ipne ipd fpd edne edd by (rule unsigned_decimal_exp_frac)
    moreover have "digits_val ed - int (length fp) = n - k" using edv fpl by simp
    ultimately have "unsigned_decimal (ip @ CHR ''.'' # fp @ CHR ''e'' # CHR ''+'' # ed) =
          Some (Some (of_int s * 10 powi (n - k)), [])"
      by (simp add: cat dsv)
    moreover have "ip @ CHR ''.'' # fp @ CHR ''e'' # CHR ''+'' # ed = c # (t @ CHR ''.'' # fp @ CHR ''e'' # CHR ''+'' # ed) \<or> True"
      by simp
    moreover have "ip = [c]" unfolding ip_def ct by simp
    ultimately show ?thesis using ns sp False c rt unfolding ip_def [symmetric] fp_def [symmetric]
      by auto
  qed
qed

section \<open>Rounding to width precision\<close>

lemma rnd_zero [simp]: "rnd 0 = Fin 0"
  by (simp add: rnd_def)

lemma is_binary64_rnd: "is_binary64 (rnd q)"
  by (cases "rnd q") (auto simp: is_binary64_def dest: rnd_idem)

lemma is_binary64_neg: "is_binary64 y \<Longrightarrow> is_binary64 (num_neg y)"
proof (cases y)
  case (Fin q)
  assume "is_binary64 y"
  then have r: "rnd q = Fin q" using Fin by (simp add: is_binary64_def)
  show ?thesis
  proof (cases "q = 0")
    case True
    then show ?thesis using Fin by (simp add: is_binary64_def)
  next
    case False
    then have "rnd (- q) = Fin (- q)" using rnd_neg [of q] r by simp
    then show ?thesis using Fin False by (simp add: is_binary64_def)
  qed
qed (simp_all add: is_binary64_def)

lemma is_binary64_parseFloat_string: "is_binary64 (parseFloat_string s)"
proof -
  have mv: "is_binary64 (mv_number m)" for m
    by (cases m) (simp_all add: mv_number_def is_binary64_rnd, simp add: is_binary64_def)
  have nan: "is_binary64 NaN" by (simp add: is_binary64_def)
  have "is_binary64 x" if "decimal_literal t = Some (x, r)" for t x r
    using that mv is_binary64_neg [OF mv]
    by (auto simp: decimal_literal_def split: list.splits if_splits)
  then show ?thesis
    using nan by (auto simp: parseFloat_string_def split: option.splits)
qed

lemma is_binary64_parseFloat: "well_formed v \<Longrightarrow> is_binary64 (parseFloat v)"
proof (cases v)
  case (JNum x)
  assume "well_formed v"
  then show ?thesis using JNum by (auto simp: well_formed_def is_binary64_def)
qed (simp_all add: is_binary64_parseFloat_string)

lemma two_decimals_int: "two_decimals (of_int k) = of_int k"
proof -
  have "\<bar>of_int k :: rat\<bar> * 100 + 1 / 2 = of_int (\<bar>k\<bar> * 100) + 1 / 2" by simp
  then have "\<lfloor>\<bar>of_int k :: rat\<bar> * 100 + 1 / 2\<rfloor> = \<bar>k\<bar> * 100"
    by (simp only: floor_add_int [symmetric] add.commute [of "of_int _"]) (simp add: floor_eq_iff)
  then show ?thesis
    by (simp add: two_decimals_def sgn_if)
qed

lemma floor_half: "\<lfloor>1 / 2 :: rat\<rfloor> = 0"
  by (simp add: floor_eq_iff)

lemma two_decimals_pos: "0 \<le> x \<Longrightarrow> two_decimals x = of_int \<lfloor>x * 100 + 1 / 2\<rfloor> / 100"
  by (cases "x = 0") (simp_all add: two_decimals_def floor_half)

lemma two_decimals_neg: "x < 0 \<Longrightarrow> two_decimals x = - (of_int \<lfloor>- x * 100 + 1 / 2\<rfloor> / 100)"
  by (simp add: two_decimals_def)

text \<open>Reading back what \<open>toFixed(2)\<close> wrote for a non-negative binary64 value.\<close>

lemma read_toFixed2_magnitude:
  assumes x: "0 \<le> x" and r: "rnd x = Fin x"
  shows "\<exists>c t q. toFixed2_magnitude x = c # t \<and> is_digit c \<and>
           unsigned_decimal (c # t) = Some (Some q, []) \<and> rnd q = rnd (two_decimals x) \<and>
           (q = 0 \<longleftrightarrow> two_decimals x = 0)"
proof (cases "x < 10 ^ 21")
  case True
  from toFixed2_magnitude_small [OF x True] obtain c t where
    "toFixed2_magnitude x = c # t" "is_digit c"
    "unsigned_decimal (c # t) = Some (Some (of_int \<lfloor>x * 100 + 1 / 2\<rfloor> / 100), [])"
    by blast
  then have "toFixed2_magnitude x = c # t \<and> is_digit c \<and>
      unsigned_decimal (c # t) = Some (Some (two_decimals x), []) \<and>
      rnd (two_decimals x) = rnd (two_decimals x) \<and> (two_decimals x = 0 \<longleftrightarrow> two_decimals x = 0)"
    using two_decimals_pos [OF x] by simp
  then show ?thesis by blast
next
  case False
  then have big: "10 ^ 21 \<le> x" by simp
  then have tf: "toFixed2_magnitude x = num_to_string (Fin x)" by (simp add: toFixed2_magnitude_def)
  have "2 ^ 53 \<le> x" using big pow10_21_ge by linarith
  with r obtain X where X: "0 < X" "x = of_int X" using binary64_large_is_int by blast
  have td: "two_decimals x = x" using X(2) two_decimals_int by simp
  from num_to_string_large [OF r big] obtain c t q where
    "num_to_string (Fin x) = c # t" "is_digit c" "unsigned_decimal (c # t) = Some (Some q, [])"
    "rnd q = Fin x" by blast
  moreover have "q \<noteq> 0" using \<open>rnd q = Fin x\<close> X by auto
  moreover have "x \<noteq> 0" using X by simp
  ultimately show ?thesis using tf td r by auto
qed

lemma toWidthPrecision_Fin:
  assumes p: "parseFloat v = Fin x" and w: "well_formed v"
  shows "toWidthPrecision v =
         JNum (if x < 0 \<and> two_decimals x = 0 then NegZero else rnd (two_decimals x))"
proof -
  have "is_binary64 (Fin x)" using is_binary64_parseFloat [OF w] p by simp
  then have r: "rnd x = Fin x" by (simp add: is_binary64_def)
  have twp: "toWidthPrecision v = JNum (parseFloat_string (toFixed2 (Fin x)))"
    using p by (simp add: toWidthPrecision_def Let_def)
  show ?thesis
  proof (cases "x < 0")
    case False
    then have x: "0 \<le> x" by simp
    from read_toFixed2_magnitude [OF x r] obtain c t q where
      m: "toFixed2_magnitude x = c # t" and c: "is_digit c"
      and u: "unsigned_decimal (c # t) = Some (Some q, [])" and q: "rnd q = rnd (two_decimals x)"
      by blast
    have "toFixed2 (Fin x) = c # t" using False m by (simp add: toFixed2_def)
    then show ?thesis using twp parseFloat_string_unsigned(1) [OF c u] q False by simp
  next
    case True
    then have x: "0 \<le> - x" by simp
    have x0: "x \<noteq> 0" using True by simp
    have r': "rnd (- x) = Fin (- x)" using rnd_neg [of x] r x0 by simp
    from read_toFixed2_magnitude [OF x r'] obtain c t q where
      m: "toFixed2_magnitude (- x) = c # t" and c: "is_digit c"
      and u: "unsigned_decimal (c # t) = Some (Some q, [])" and q: "rnd q = rnd (two_decimals (- x))"
      and z: "q = 0 \<longleftrightarrow> two_decimals (- x) = 0"
      by blast
    have tdn: "two_decimals (- x) = - two_decimals x" by (simp add: two_decimals_def)
    have tf: "toFixed2 (Fin x) = CHR ''-'' # c # t" using True m by (simp add: toFixed2_def)
    have res: "toWidthPrecision v = JNum (num_neg (rnd (- two_decimals x)))"
      using twp tf parseFloat_string_unsigned(2) [OF c u] q tdn by simp
    show ?thesis
    proof (cases "two_decimals x = 0")
      case True
      then show ?thesis using res \<open>x < 0\<close> by simp
    next
      case False
      then have "num_neg (rnd (- two_decimals x)) = rnd (two_decimals x)"
        using rnd_neg [of "- two_decimals x"] by simp
      then show ?thesis using res False by simp
    qed
  qed
qed

lemma toWidthPrecision_NegZero:
  assumes p: "parseFloat v = NegZero"
  shows "toWidthPrecision v = JNum (Fin 0)"
proof -
  have twp: "toWidthPrecision v = JNum (parseFloat_string (toFixed2 NegZero))"
    using p by (simp add: toWidthPrecision_def Let_def)
  from read_toFixed2_magnitude [of 0] obtain c t q where
    m: "toFixed2_magnitude 0 = c # t" and c: "is_digit c"
    and u: "unsigned_decimal (c # t) = Some (Some q, [])" and q: "rnd q = rnd (two_decimals 0)"
    by auto
  have "toFixed2 NegZero = c # t" using m by (simp add: toFixed2_def)
  then show ?thesis
    using twp parseFloat_string_unsigned(1) [OF c u] q by (simp add: two_decimals_def)
qed

section \<open>The error of rounding\<close>

lemma rnd_pos_error:
  assumes q: "0 < q" and b: "q < 2 powi 1023"
  shows "\<exists>y. (rnd q = Fin y) \<and> 0 \<le> y \<and> \<bar>y - q\<bar> \<le> q / 2 ^ 53 + 2 powi (- 1075)"
proof -
  define e where "e = max (floor_log 2 q) (- 1022)"
  define u :: rat where "u = 2 powi (e - 52)"
  define n where "n = round_even (q / u)"
  have u: "0 < u" by (simp add: u_def)
  note sb = significand_bounds [OF q, folded e_def, folded u_def, folded n_def]
  from floor_log_bounds [OF q, of 2]
  have lo: "2 powi (floor_log 2 q) \<le> q" and hi: "q < 2 powi (floor_log 2 q + 1)" by auto
  have fl: "floor_log 2 q < 1023"
  proof (rule ccontr)
    assume "\<not> floor_log 2 q < 1023"
    then have "(2::rat) powi 1023 \<le> 2 powi (floor_log 2 q)"
      by (intro power_int_increasing) auto
    then show False using lo b by linarith
  qed
  then have e2: "e < 1023" by (simp add: e_def)
  have r: "rnd q = (if 1023 < e \<or> (e = 1023 \<and> n = 2 ^ 53) then PosInf
                    else if n = 0 then Fin 0 else Fin (of_int n * u))"
  proof -
    have a: "\<bar>q\<bar> = q" and b: "(q = 0) = False" and c: "(0 < q) = True" using q by auto
    show ?thesis
      unfolding rnd_def Let_def a e_def [symmetric] u_def [symmetric] n_def [symmetric]
      by (simp only: b c if_True if_False)
  qed
  have rn: "rnd q = Fin (of_int n * u)" using r e2 by (cases "n = 0") auto
  have "\<bar>of_int n - q / u\<bar> \<le> 1 / 2" unfolding n_def by (rule round_even_error)
  then have "\<bar>of_int n - q / u\<bar> * u \<le> 1 / 2 * u" using u by (intro mult_right_mono) auto
  moreover have "\<bar>of_int n - q / u\<bar> * u = \<bar>of_int n * u - q\<bar>"
  proof -
    have "\<bar>of_int n - q / u\<bar> * u = \<bar>(of_int n - q / u) * u\<bar>" using u by (simp add: abs_mult)
    also have "(of_int n - q / u) * u = of_int n * u - q" using u by (simp add: algebra_simps)
    finally show ?thesis .
  qed
  ultimately have err: "\<bar>of_int n * u - q\<bar> \<le> u / 2" by simp
  have t0: "(0::rat) \<le> 2 powi (- 1075)" by (rule zero_le_power_int) simp
  have half: "u / 2 \<le> q / 2 ^ 53 + 2 powi (- 1075)"
  proof (cases "- 1022 \<le> floor_log 2 q")
    case True
    then have "e = floor_log 2 q" by (simp add: e_def)
    then have "2 powi e \<le> q" using lo by simp
    then have "2 ^ 52 * u \<le> q" unfolding u_def pow2_split [of e] .
    then have "u \<le> q / 2 ^ 52" by (simp add: pos_le_divide_eq mult.commute)
    then have "u / 2 \<le> q / 2 ^ 52 / 2" by (simp add: divide_right_mono)
    also have "\<dots> = q / 2 ^ 53" by simp
    finally show ?thesis using t0 by linarith
  next
    case False
    then have "e = - 1022" by (simp add: e_def)
    then have "u = 2 powi (- 1074)" by (simp add: u_def)
    moreover have "(2::rat) powi (- 1074) = 2 * 2 powi (- 1075)"
      using power_int_add [of "2::rat" 1 "- 1075"] by simp
    ultimately have "u / 2 = 2 powi (- 1075)" by simp
    moreover have "0 \<le> q / 2 ^ 53" using q by simp
    ultimately show ?thesis by linarith
  qed
  have "0 \<le> of_int n * u" using sb(1) u by simp
  then show ?thesis using rn err half by (intro exI [of _ "of_int n * u"]) auto
qed

lemma num_val_neg [simp]: "num_val (num_neg z) = - num_val z"
  by (cases z) auto

lemma num_finite_neg [simp]: "num_finite (num_neg z) = num_finite z"
  by (cases z) auto

lemma rnd_error:
  assumes b: "\<bar>q\<bar> < 2 powi 1023"
  shows "num_finite (rnd q) \<and> \<bar>num_val (rnd q) - q\<bar> \<le> \<bar>q\<bar> / 2 ^ 53 + 2 powi (- 1075)"
proof -
  consider "q = 0" | "0 < q" | "q < 0" by linarith
  then show ?thesis
  proof cases
    case 1
    then show ?thesis by simp
  next
    case 2
    then have "q < 2 powi 1023" using b by simp
    from rnd_pos_error [OF 2 this] show ?thesis using 2 by auto
  next
    case 3
    then have q: "0 < - q" and b': "- q < 2 powi 1023" using b by simp_all
    from rnd_pos_error [OF q b'] obtain y where
      y: "rnd (- q) = Fin y" "\<bar>y - (- q)\<bar> \<le> (- q) / 2 ^ 53 + 2 powi (- 1075)" by blast
    have "rnd q = num_neg (rnd (- q))" using rnd_neg [of "- q"] 3 by simp
    then have "num_finite (rnd q)" and v: "num_val (rnd q) = - y" using y(1) by simp_all
    moreover have "\<bar>- y - q\<bar> = \<bar>y - (- q)\<bar>" by simp
    moreover have "\<bar>q\<bar> = - q" using 3 by simp
    ultimately show ?thesis using y(2) by simp
  qed
qed

lemma rnd_nonneg: "0 \<le> q \<Longrightarrow> q < 2 powi 1023 \<Longrightarrow> \<exists>y. rnd q = Fin y \<and> 0 \<le> y"
  using rnd_pos_error [of q] by (cases "q = 0") auto

section \<open>Width maps\<close>

lemma map_of_insert_index:
  "map_of obj key = None \<Longrightarrow>
   map_of (insert_index key v obj) k = (if k = key then Some v else map_of obj k)"
  by (induction key v obj rule: insert_index.induct) (auto split: if_splits)

lemma mset_insert_index: "mset (insert_index key v obj) = add_mset (key, v) (mset obj)"
  by (induction key v obj rule: insert_index.induct) auto

lemma map_of_snoc:
  "map_of obj key = None \<Longrightarrow>
   map_of (obj @ [(key, v)]) k = (if k = key then Some v else map_of obj k)"
  by (induction obj) auto

lemma map_of_set_property:
  "map_of (set_property obj key v) k =
     (if key = ''__proto__'' then map_of obj k else if k = key then Some v else map_of obj k)"
  unfolding set_property_def
  by (simp add: update_conv' map_of_insert_index map_of_snoc del: map_of_append)

lemma mset_set_property:
  "key \<noteq> ''__proto__'' \<Longrightarrow> map_of obj key = None \<Longrightarrow>
   mset (set_property obj key v) = add_mset (key, v) (mset obj)"
  unfolding set_property_def by (simp add: mset_insert_index)



lemma foldl_set_property_kept:
  "map_of acc k \<noteq> None \<Longrightarrow> map_of (foldl (\<lambda>a b. set_property a (key b) (f b)) acc bs) k \<noteq> None"
  by (induction bs arbitrary: acc) (auto simp: map_of_set_property)

lemma foldl_set_property_key:
  "b \<in> set bs \<Longrightarrow> key b \<noteq> ''__proto__'' \<Longrightarrow>
   map_of (foldl (\<lambda>a b. set_property a (key b) (f b)) acc bs) (key b) \<noteq> None"
proof (induction bs arbitrary: acc)
  case Nil
  then show ?case by simp
next
  case (Cons c bs)
  show ?case
  proof (cases "b \<in> set bs")
    case True
    then show ?thesis using Cons.IH Cons.prems(2) by simp
  next
    case False
    then have bc: "b = c" using Cons.prems(1) by simp
    have "map_of (set_property acc (key c) (f c)) (key c) \<noteq> None"
      using Cons.prems(2) bc by (simp add: map_of_set_property)
    then show ?thesis using bc by (simp add: foldl_set_property_kept)
  qed
qed

lemma foldl_set_property_no_proto:
  "map_of acc ''__proto__'' = None \<Longrightarrow>
   map_of (foldl (\<lambda>a b. set_property a (key b) (f b)) acc bs) ''__proto__'' = None"
  by (induction bs arbitrary: acc) (auto simp: map_of_set_property)


lemma foldl_set_property_mset:
  "distinct (map key bs) \<Longrightarrow> ''__proto__'' \<notin> key ` set bs \<Longrightarrow>
   \<forall>b \<in> set bs. map_of acc (key b) = None \<Longrightarrow>
   mset (foldl (\<lambda>a b. set_property a (key b) (f b)) acc bs) =
     mset acc + mset (map (\<lambda>b. (key b, f b)) bs)"
proof (induction bs arbitrary: acc)
  case Nil
  then show ?case by simp
next
  case (Cons c bs)
  have d: "distinct (map key bs)" and nc: "key c \<notin> key ` set bs" using Cons.prems(1) by auto
  have np: "''__proto__'' \<notin> key ` set bs" and cp: "key c \<noteq> ''__proto__''"
    using Cons.prems(2) by auto
  have fresh: "map_of acc (key c) = None" using Cons.prems(3) by simp
  have rest: "\<forall>b \<in> set bs. map_of (set_property acc (key c) (f c)) (key b) = None"
    using Cons.prems(3) nc cp by (auto simp: map_of_set_property image_iff)
  show ?case
    using Cons.IH [OF d np rest] by (simp add: mset_set_property [OF cp fresh])
qed



lemma getColumnWidths_mset:
  "distinct (map clientId blocks) \<Longrightarrow> ''__proto__'' \<notin> clientId ` set blocks \<Longrightarrow>
   mset (getColumnWidths blocks t) =
     mset (map (\<lambda>b. (clientId b, getEffectiveColumnWidth b (default_count blocks t))) blocks)"
  unfolding getColumnWidths_def
  using foldl_set_property_mset [where acc = "[]" and key = clientId and bs = blocks]
  by simp


lemma map_of_mapValues: "map_of (mapValues obj f) k = map_option f (map_of obj k)"
  unfolding mapValues_def by (induction obj) auto

section \<open>Invalid widths in the total\<close>

lemma baseSum_skip_undefined:
  "baseSum (xs @ JUndefined # ys) r = baseSum (xs @ ys) r"
  by (induction xs arbitrary: r) auto

lemma toWidthPrecision_not_finite:
  "\<not> num_finite (parseFloat v) \<Longrightarrow> toWidthPrecision v = JUndefined"
  by (simp add: toWidthPrecision_def Let_def)

lemma default_count_idem: "default_count bs (default_count cs t) = default_count cs t"
  by (simp add: default_count_def js_length_def)

text \<open>
  Claim C10 says that one column with a declared width that does not parse to a finite
  number makes the total width not-a-number. It does not: the effective width of such a
  column is undefined, and \<open>sumBy\<close> skips undefined values. With a second column of width
  50 the total is 50; with no other column it is undefined.
\<close>

theorem total_width_not_nan_counterexample:
  "width (attributes (column ''a'' (JStr ''abc''))) = JStr ''abc'' \<and>
   \<not> num_finite (parseFloat (JStr ''abc'')) \<and>
   getTotalColumnsWidth [column ''a'' (JStr ''abc''), column ''b'' (JNum (Fin 50))] JUndefined = JNum (Fin 50) \<and>
   getTotalColumnsWidth [column ''a'' (JStr ''abc''), column ''b'' (JNum (Fin 50))] JUndefined \<noteq> JNum NaN \<and>
   getTotalColumnsWidth [column ''a'' (JStr ''abc'')] JUndefined = JUndefined"
  by code_simp

text \<open>
  Claim C10, amended. A column whose declared width does not parse to a finite number
  adds nothing to the total width: the total is that of the other columns, computed
  against the same total count, and it is undefined when there is no other column. The
  equal share is not put in the place of the invalid width.
\<close>

theorem total_width_skips_invalid_width:
  "width (attributes b) \<noteq> JUndefined \<Longrightarrow> \<not> num_finite (parseFloat (width (attributes b))) \<Longrightarrow>
   getTotalColumnsWidth (xs @ b # ys) t =
     (if xs @ ys = [] then JUndefined
      else getTotalColumnsWidth (xs @ ys) (default_count (xs @ b # ys) t))"
proof -
  assume w: "width (attributes b) \<noteq> JUndefined"
    and nf: "\<not> num_finite (parseFloat (width (attributes b)))"
  let ?t = "default_count (xs @ b # ys) t"
  have eb: "getEffectiveColumnWidth b ?t = JUndefined"
    using w nf by (simp add: getEffectiveColumnWidth_def toWidthPrecision_not_finite)
  have "getTotalColumnsWidth (xs @ b # ys) t =
        baseSum (map (\<lambda>c. getEffectiveColumnWidth c ?t) xs @ JUndefined #
                 map (\<lambda>c. getEffectiveColumnWidth c ?t) ys) JUndefined"
    by (simp add: getTotalColumnsWidth_def sumBy_def eb)
  also have "\<dots> = baseSum (map (\<lambda>c. getEffectiveColumnWidth c ?t) (xs @ ys)) JUndefined"
    by (simp add: baseSum_skip_undefined)
  finally show ?thesis
    by (simp add: getTotalColumnsWidth_def sumBy_def default_count_idem)
qed

theorem total_width_skips_invalid_width_witness:
  "width (attributes (column ''a'' (JStr ''abc''))) \<noteq> JUndefined \<and>
   \<not> num_finite (parseFloat (width (attributes (column ''a'' (JStr ''abc''))))) \<and>
   getTotalColumnsWidth ([] @ column ''a'' (JStr ''abc'') # [column ''b'' (JNum (Fin 50))]) JUndefined =
     getTotalColumnsWidth [column ''b'' (JNum (Fin 50))] (JNum (Fin 2))"
proof -
  have w: "width (attributes (column ''a'' (JStr ''abc''))) \<noteq> JUndefined" by (simp add: column_def)
  have nf: "\<not> num_finite (parseFloat (width (attributes (column ''a'' (JStr ''abc'')))))" by code_simp
  have dc: "default_count ([] @ column ''a'' (JStr ''abc'') # [column ''b'' (JNum (Fin 50))]) JUndefined = JNum (Fin 2)"
    by (simp add: default_count_def js_length_def)
  show ?thesis
    using total_width_skips_invalid_width [OF w nf, of "[]" "[column ''b'' (JNum (Fin 50))]" JUndefined] w nf
    unfolding dc by simp
qed

section \<open>Formatting a width with its unit\<close>

lemma to_string_min_zero: "to_string (Math_min (JStr ''0'') (JNum (Fin 100))) = ''0''"
  by code_simp

lemma num_to_string_100: "num_to_string (Fin 100) = ''100''"
  by code_simp

lemma num_min_cap: "num_less (Fin 100) x \<Longrightarrow> num_min x (Fin 100) = Fin 100"
  by (cases x) (auto simp: num_min_def num_less_def)

text \<open>
  Claim C9. \<open>getWidthWithUnit\<close> returns the width followed by the unit, where a width
  whose \<open>parseFloat\<close> is negative is first replaced by the string \<open>0\<close>, and, for the unit
  \<open>%\<close>, the width is then the smaller of its numeric value and 100: a width above 100 gives
  \<open>100%\<close>. The three examples of the specification hold.
\<close>

theorem getWidthWithUnit_format:
  "getWidthWithUnit w unit =
     (if num_less (parseFloat w) (Fin 0)
      then (if unit = ''%'' then ''0%'' else ''0'' @ unit)
      else if unit = ''%'' then num_to_string (num_min (to_number w) (Fin 100)) @ ''%''
      else to_string w @ unit) \<and>
   (\<not> num_less (parseFloat w) (Fin 0) \<and> num_less (Fin 100) (to_number w) \<longrightarrow>
      getWidthWithUnit w ''%'' = ''100%'') \<and>
   getWidthWithUnit (JNum (Fin (- 5))) ''px'' = ''0px'' \<and>
   getWidthWithUnit (JNum (Fin 150)) ''%'' = ''100%'' \<and>
   getWidthWithUnit (JNum (Fin 40)) ''em'' = ''40em''"
proof -
  have gen: "getWidthWithUnit w unit =
     (if num_less (parseFloat w) (Fin 0)
      then (if unit = ''%'' then ''0%'' else ''0'' @ unit)
      else if unit = ''%'' then num_to_string (num_min (to_number w) (Fin 100)) @ ''%''
      else to_string w @ unit)" for w unit
    using to_string_min_zero by (simp add: getWidthWithUnit_def Let_def Math_min_def)
  have cap: "getWidthWithUnit w ''%'' = ''100%''"
    if "\<not> num_less (parseFloat w) (Fin 0)" "num_less (Fin 100) (to_number w)"
    using that num_to_string_100 by (simp add: gen num_min_cap)
  have e1: "getWidthWithUnit (JNum (Fin (- 5))) ''px'' = ''0px''" by code_simp
  have e2: "getWidthWithUnit (JNum (Fin 150)) ''%'' = ''100%''" by code_simp
  have e3: "getWidthWithUnit (JNum (Fin 40)) ''em'' = ''40em''" by code_simp
  show ?thesis using gen cap e1 e2 e3 by blast
qed

theorem getWidthWithUnit_format_witness:
  "\<not> num_less (parseFloat (JStr ''250'')) (Fin 0) \<and> num_less (Fin 100) (to_number (JStr ''250'')) \<and>
   getWidthWithUnit (JStr ''250'') ''%'' = ''100%''"
proof -
  have a: "\<not> num_less (parseFloat (JStr ''250'')) (Fin 0)" by code_simp
  have b: "num_less (Fin 100) (to_number (JStr ''250''))" by code_simp
  show ?thesis using getWidthWithUnit_format [of "JStr ''250''" "''%''"] a b by blast
qed

section \<open>Extracting widths\<close>

lemma rnd_pos_not_NegZero: "0 < q \<Longrightarrow> rnd q \<noteq> NegZero"
  by (simp add: rnd_def Let_def)

lemma default_share:
  "blocks \<noteq> [] \<Longrightarrow> js_div (JNum (Fin 100)) (js_length blocks) = JNum (rnd (100 / of_nat (length blocks)))"
  by (simp add: js_div_def js_length_def num_div_def)

text \<open>
  Claim C8 says that \<open>getWidths\<close> takes the equal share only when the width is absent.
  The code takes it whenever the width is falsy: a declared width of 0 is replaced by
  the equal share.
\<close>

theorem getWidths_zero_width_counterexample:
  "width (attributes (column ''a'' (JNum (Fin 0)))) = JNum (Fin 0) \<and>
   getWidths [column ''a'' (JNum (Fin 0))] False = [JNum (Fin 100)] \<and>
   getWidths [column ''a'' (JNum (Fin 0))] False \<noteq> [JNum (Fin 0)]"
  by code_simp

text \<open>
  Claim C8, amended. \<open>getWidths\<close> returns one entry per column. For a column whose
  declared width is truthy (present, and not 0, not-a-number or the empty string) the
  entry is that width, read by \<open>parseFloat\<close> when parsing is asked for and unchanged
  otherwise. For every other column the entry is the Number \<open>100 / |columns|\<close>.
\<close>

theorem getWidths_entries:
  "length (getWidths blocks withParsing) = length blocks \<and>
   (\<forall>i < length blocks.
      getWidths blocks withParsing ! i =
        (let w = width (attributes (blocks ! i))
         in if truthy w then (if withParsing then JNum (parseFloat w) else w)
            else JNum (rnd (100 / of_nat (length blocks)))))"
proof -
  have "getWidths blocks withParsing ! i =
        (let w = width (attributes (blocks ! i))
         in if truthy w then (if withParsing then JNum (parseFloat w) else w)
            else JNum (rnd (100 / of_nat (length blocks))))" if i: "i < length blocks" for i
  proof -
    from i have ne: "blocks \<noteq> []" by auto
    have pos: "(0::rat) < 100 / of_nat (length blocks)" using ne by simp
    show ?thesis
      using i rnd_pos_not_NegZero [OF pos]
      by (simp add: getWidths_def Let_def default_share [OF ne])
  qed
  then show ?thesis by (simp add: getWidths_def)
qed

theorem getWidths_entries_witness:
  "(0::nat) < length [column ''a'' (JStr ''40%''), column ''b'' JUndefined] \<and>
   getWidths [column ''a'' (JStr ''40%''), column ''b'' JUndefined] True ! 0 = JNum (Fin 40)"
proof -
  let ?bs = "[column ''a'' (JStr ''40%''), column ''b'' JUndefined]"
  have i: "(0::nat) < length ?bs" by simp
  have v: "(let w = width (attributes (?bs ! 0))
         in if truthy w then (if True then JNum (parseFloat w) else w)
            else JNum (rnd (100 / of_nat (length ?bs)))) = JNum (Fin 40)"
    by code_simp
  from getWidths_entries [of ?bs True] have "\<forall>i < length ?bs. getWidths ?bs True ! i =
        (let w = width (attributes (?bs ! i))
         in if truthy w then (if True then JNum (parseFloat w) else w)
            else JNum (rnd (100 / of_nat (length ?bs))))" by blast
  with i have "getWidths ?bs True ! 0 = (let w = width (attributes (?bs ! 0))
         in if truthy w then (if True then JNum (parseFloat w) else w)
            else JNum (rnd (100 / of_nat (length ?bs))))" by blast
  with i v show ?thesis by simp
qed

section \<open>Explicit percent widths\<close>

text \<open>
  Claim C4 says that the test is true exactly when every declared width, with an optional
  \<open>%\<close> stripped, parses as a finite number. A string that is a number without the \<open>%\<close>
  parses as one, but the code passes it to \<open>Number.isFinite\<close> as it is, which is false of
  every string.
\<close>

theorem explicit_percent_plain_string_counterexample:
  "num_finite (parseFloat (JStr ''50'')) \<and>
   \<not> hasExplicitPercentColumnWidths [column ''a'' (JStr ''50'')]"
  by code_simp

text \<open>
  Claim C4, amended. \<open>hasExplicitPercentColumnWidths\<close> is true exactly when the declared
  width of every column is a finite Number, or a string that ends in \<open>%\<close> and that
  \<open>parseFloat\<close> reads as a finite number. A missing width, a string that is not a number
  and a numeric string without the \<open>%\<close> each make it false.
\<close>

theorem explicit_percent_widths_iff:
  "hasExplicitPercentColumnWidths blocks \<longleftrightarrow>
     (\<forall>b \<in> set blocks.
        case width (attributes b) of
          JNum x \<Rightarrow> num_finite x
        | JStr s \<Rightarrow> s \<noteq> [] \<and> last s = CHR ''%'' \<and> num_finite (parseFloat_string s)
        | _ \<Rightarrow> False)"
proof -
  have one: "isFinite (if ends_with_percent v then JNum (parseFloat v) else v) =
        (case v of
          JNum x \<Rightarrow> num_finite x
        | JStr s \<Rightarrow> s \<noteq> [] \<and> last s = CHR ''%'' \<and> num_finite (parseFloat_string s)
        | _ \<Rightarrow> False)" for v
    by (cases v) (auto simp: ends_with_percent_def)
  show ?thesis
    by (simp add: hasExplicitPercentColumnWidths_def Let_def list_all_iff one)
qed

theorem explicit_percent_widths_iff_witness:
  "hasExplicitPercentColumnWidths [column ''a'' (JNum (Fin 60)), column ''b'' (JStr ''40%'')] \<and>
   \<not> hasExplicitPercentColumnWidths [column ''a'' JUndefined] \<and>
   \<not> hasExplicitPercentColumnWidths [column ''a'' (JStr ''abc'')]"
proof -
  have a: "hasExplicitPercentColumnWidths [column ''a'' (JNum (Fin 60)), column ''b'' (JStr ''40%'')]"
    by code_simp
  have b: "\<not> hasExplicitPercentColumnWidths [column ''a'' JUndefined]"
    using explicit_percent_widths_iff [of "[column ''a'' JUndefined]"] by (simp add: column_def)
  have c: "\<not> hasExplicitPercentColumnWidths [column ''a'' (JStr ''abc'')]"
    using explicit_percent_widths_iff [of "[column ''a'' (JStr ''abc'')]"] by (simp add: column_def)
  show ?thesis using a b c by blast
qed

section \<open>Width precision\<close>

lemma two_decimals_hundredths: "\<exists>k::int. two_decimals x * 100 = of_int k"
proof -
  have "two_decimals x * 100 = of_int (sgn \<lfloor>\<bar>x\<bar> * 100 + 1 / 2\<rfloor> * 0 + (if x < 0 then - \<lfloor>\<bar>x\<bar> * 100 + 1 / 2\<rfloor> else if x = 0 then 0 else \<lfloor>\<bar>x\<bar> * 100 + 1 / 2\<rfloor>))"
    by (simp add: two_decimals_def sgn_if)
  then show ?thesis by blast
qed

lemma two_decimals_error: "\<bar>two_decimals x - x\<bar> \<le> 1 / 200"
proof -
  have pos: "\<bar>of_int \<lfloor>y * 100 + 1 / 2\<rfloor> / 100 - y\<bar> \<le> 1 / 200" for y :: rat
  proof -
    define n where "n = \<lfloor>y * 100 + 1 / 2\<rfloor>"
    have "of_int n \<le> y * 100 + 1 / 2" and "y * 100 + 1 / 2 < of_int n + 1"
      unfolding n_def by linarith+
    then have "\<bar>of_int n / 100 - y\<bar> \<le> 1 / 200" by linarith
    then show ?thesis by (simp add: n_def)
  qed
  consider "x = 0" | "0 < x" | "x < 0" by linarith
  then show ?thesis
  proof cases
    case 1
    then show ?thesis by (simp add: two_decimals_def)
  next
    case 2
    then show ?thesis using pos [of x] by (simp add: two_decimals_def)
  next
    case 3
    have "\<bar>- (of_int \<lfloor>- x * 100 + 1 / 2\<rfloor> / 100) - x\<bar> = \<bar>of_int \<lfloor>- x * 100 + 1 / 2\<rfloor> / 100 - (- x)\<bar>"
      by (simp add: abs_minus_commute)
    then show ?thesis using pos [of "- x"] two_decimals_neg [OF 3] by simp
  qed
qed

text \<open>
  Claim C2. When \<open>parseFloat\<close> of the value is a finite number \<open>x\<close>, \<open>toWidthPrecision\<close>
  returns \<open>x\<close> rounded to two decimals, as a Number: the binary64 value nearest to
  \<open>two_decimals x\<close>, which is a whole number of hundredths within half a hundredth of \<open>x\<close>
  (with the sign of \<open>x\<close> kept on a zero). When it is not finite (not-a-number, an infinity, a
  string that is not a number, undefined) the result is undefined. A Number argument is
  taken to be a binary64 value.
\<close>

theorem toWidthPrecision_rounds:
  "well_formed v \<Longrightarrow>
   toWidthPrecision v =
     (case parseFloat v of
        Fin x \<Rightarrow> JNum (if x < 0 \<and> two_decimals x = 0 then NegZero else rnd (two_decimals x))
      | NegZero \<Rightarrow> JNum (Fin 0)
      | _ \<Rightarrow> JUndefined) \<and>
   (\<forall>x. \<bar>two_decimals x - x\<bar> \<le> 1 / 200 \<and> (\<exists>k::int. two_decimals x * 100 = of_int k)) \<and>
   toWidthPrecision JUndefined = JUndefined \<and>
   toWidthPrecision (JNum NaN) = JUndefined \<and>
   toWidthPrecision (JNum PosInf) = JUndefined \<and>
   toWidthPrecision (JNum NegInf) = JUndefined \<and>
   toWidthPrecision (JStr ''abc'') = JUndefined"
proof -
  assume w: "well_formed v"
  have main: "toWidthPrecision v =
     (case parseFloat v of
        Fin x \<Rightarrow> JNum (if x < 0 \<and> two_decimals x = 0 then NegZero else rnd (two_decimals x))
      | NegZero \<Rightarrow> JNum (Fin 0)
      | _ \<Rightarrow> JUndefined)"
  proof (cases "parseFloat v")
    case (Fin x)
    then show ?thesis using toWidthPrecision_Fin [OF Fin w] by simp
  next
    case NegZero
    then show ?thesis using toWidthPrecision_NegZero by simp
  qed (simp_all add: toWidthPrecision_def Let_def)
  have e1: "toWidthPrecision JUndefined = JUndefined" by code_simp
  have e2: "toWidthPrecision (JNum NaN) = JUndefined" by code_simp
  have e3: "toWidthPrecision (JNum PosInf) = JUndefined" by code_simp
  have e4: "toWidthPrecision (JNum NegInf) = JUndefined" by code_simp
  have e5: "toWidthPrecision (JStr ''abc'') = JUndefined" by code_simp
  show ?thesis
    using main two_decimals_error two_decimals_hundredths e1 e2 e3 e4 e5 by blast
qed

theorem toWidthPrecision_rounds_witness:
  "well_formed (JStr ''1.005'') \<and>
   parseFloat (JStr ''1.005'') = Fin (1131529406376837 / 1125899906842624) \<and>
   two_decimals (1131529406376837 / 1125899906842624) = 1 \<and>
   toWidthPrecision (JStr ''1.005'') = JNum (Fin 1)"
proof -
  have w: "well_formed (JStr ''1.005'')" by (simp add: well_formed_def)
  have p: "parseFloat (JStr ''1.005'') = Fin (1131529406376837 / 1125899906842624)" by code_simp
  have t: "two_decimals (1131529406376837 / 1125899906842624) = 1" by code_simp
  have r: "rnd 1 = Fin 1" by code_simp
  from toWidthPrecision_rounds [OF w]
  have "toWidthPrecision (JStr ''1.005'') =
     (case parseFloat (JStr ''1.005'') of
        Fin x \<Rightarrow> JNum (if x < 0 \<and> two_decimals x = 0 then NegZero else rnd (two_decimals x))
      | NegZero \<Rightarrow> JNum (Fin 0)
      | _ \<Rightarrow> JUndefined)" by blast
  then have "toWidthPrecision (JStr ''1.005'') = JNum (Fin 1)"
    unfolding p using t r by simp
  then show ?thesis using w p t by blast
qed

section \<open>Effective width\<close>

text \<open>
  Claim C3 says that a declared width that is not finite is replaced by the equal share,
  so that the result is always a number. The share is taken only when no width is
  declared: the declared width \<open>abc\<close> gives undefined, not the share 50 of two columns.
\<close>

theorem effective_width_invalid_counterexample:
  "width (attributes (column ''a'' (JStr ''abc''))) = JStr ''abc'' \<and>
   \<not> num_finite (parseFloat (JStr ''abc'')) \<and>
   num_less (Fin 1) (Fin 2) \<and>
   getEffectiveColumnWidth (column ''a'' (JStr ''abc'')) (JNum (Fin 2)) = JUndefined \<and>
   toWidthPrecision (js_div (JNum (Fin 100)) (JNum (Fin 2))) = JNum (Fin 50)"
  by code_simp

text \<open>
  Claim C3, amended. The effective width is the width-precision rounding of the declared
  width when one is declared, and of \<open>100 / totalCount\<close> when none is. A declared width that
  parses to a finite number gives that number rounded to two decimals; a declared width
  that does not gives undefined; with no declared width and a total count of at least 1
  the result is the Number \<open>100 / totalCount\<close> rounded to two decimals.
\<close>

theorem effective_width_cases:
  "getEffectiveColumnWidth b t =
     (if width (attributes b) = JUndefined then toWidthPrecision (js_div (JNum (Fin 100)) t)
      else toWidthPrecision (width (attributes b))) \<and>
   (width (attributes b) \<noteq> JUndefined \<and> well_formed (width (attributes b)) \<and>
    parseFloat (width (attributes b)) = Fin x \<longrightarrow>
      getEffectiveColumnWidth b t =
        JNum (if x < 0 \<and> two_decimals x = 0 then NegZero else rnd (two_decimals x))) \<and>
   (width (attributes b) \<noteq> JUndefined \<and> \<not> num_finite (parseFloat (width (attributes b))) \<longrightarrow>
      getEffectiveColumnWidth b t = JUndefined) \<and>
   (width (attributes b) = JUndefined \<and> t = JNum (Fin c) \<and> 1 \<le> c \<longrightarrow>
      (\<exists>y. rnd (100 / c) = Fin y \<and> 0 \<le> y \<and>
           getEffectiveColumnWidth b t = JNum (rnd (two_decimals y))))"
proof -
  have gen: "getEffectiveColumnWidth b t =
     (if width (attributes b) = JUndefined then toWidthPrecision (js_div (JNum (Fin 100)) t)
      else toWidthPrecision (width (attributes b)))"
    by (simp add: getEffectiveColumnWidth_def Let_def)
  have fin: "getEffectiveColumnWidth b t =
        JNum (if x < 0 \<and> two_decimals x = 0 then NegZero else rnd (two_decimals x))"
    if "width (attributes b) \<noteq> JUndefined" "well_formed (width (attributes b))"
      "parseFloat (width (attributes b)) = Fin x"
    using that toWidthPrecision_Fin [OF that(3) that(2)] by (simp add: gen)
  have inv: "getEffectiveColumnWidth b t = JUndefined"
    if "width (attributes b) \<noteq> JUndefined" "\<not> num_finite (parseFloat (width (attributes b)))"
    using that by (simp add: gen toWidthPrecision_def Let_def)
  have share: "\<exists>y. rnd (100 / c) = Fin y \<and> 0 \<le> y \<and>
           getEffectiveColumnWidth b t = JNum (rnd (two_decimals y))"
    if u: "width (attributes b) = JUndefined" and t: "t = JNum (Fin c)" and c: "1 \<le> c"
  proof -
    have q0: "0 \<le> 100 / c" using c by simp
    have "100 / c \<le> 100" using c by (simp add: pos_divide_le_eq)
    moreover have "(100::rat) < 2 powi 1023"
    proof -
      have "(100::rat) < 2 powi 7" by simp
      also have "\<dots> \<le> 2 powi 1023" by (intro power_int_increasing) auto
      finally show ?thesis .
    qed
    ultimately have q1: "100 / c < 2 powi 1023" by linarith
    from rnd_nonneg [OF q0 q1] obtain y where y: "rnd (100 / c) = Fin y" "0 \<le> y" by blast
    have c0: "c \<noteq> 0" using c by auto
    have d: "js_div (JNum (Fin 100)) t = JNum (Fin y)"
      using c0 y(1) by (simp add: t js_div_def num_div_def)
    have wf: "well_formed (JNum (Fin y))"
      using is_binary64_rnd [of "100 / c"] y(1) by (simp add: well_formed_def)
    have pf: "parseFloat (JNum (Fin y)) = Fin y" by simp
    have "toWidthPrecision (JNum (Fin y)) = JNum (rnd (two_decimals y))"
      using toWidthPrecision_Fin [OF pf wf] y(2) by simp
    then show ?thesis using y u d by (auto simp: gen)
  qed
  show ?thesis using gen fin inv share by blast
qed

theorem effective_width_cases_witness:
  "width (attributes (column ''a'' JUndefined)) = JUndefined \<and> (1::rat) \<le> 3 \<and>
   rnd (100 / 3) = Fin (4691249611844267 / 140737488355328) \<and>
   getEffectiveColumnWidth (column ''a'' JUndefined) (JNum (Fin 3)) =
     JNum (rnd (two_decimals (4691249611844267 / 140737488355328))) \<and>
   rnd (two_decimals (4691249611844267 / 140737488355328)) = Fin (2345390243441541 / 70368744177664)"
proof -
  have a: "width (attributes (column ''a'' JUndefined)) = JUndefined" by (simp add: column_def)
  have r: "rnd (100 / 3) = Fin (4691249611844267 / 140737488355328)" by code_simp
  have v: "rnd (two_decimals (4691249611844267 / 140737488355328)) =
           Fin (2345390243441541 / 70368744177664)" by code_simp
  from effective_width_cases [of "column ''a'' JUndefined" "JNum (Fin 3)" 0 3] a
  obtain y where y: "rnd (100 / 3) = Fin y"
    "getEffectiveColumnWidth (column ''a'' JUndefined) (JNum (Fin 3)) = JNum (rnd (two_decimals y))"
    by auto
  have ye: "y = 4691249611844267 / 140737488355328" using y(1) r by simp
  have g: "getEffectiveColumnWidth (column ''a'' JUndefined) (JNum (Fin 3)) =
     JNum (rnd (two_decimals (4691249611844267 / 140737488355328)))"
    using y(2) unfolding ye .
  have le: "(1::rat) \<le> 3" by simp
  show ?thesis using a le r g v by blast
qed

section \<open>Redistribution\<close>

text \<open>
  Claim C1 says that the redistributed width map has an entry for each column. A column
  whose id is \<open>__proto__\<close> has none: \<open>Object.assign\<close> sets that key on the width map, the
  set reaches the setter inherited from \<open>Object.prototype\<close>, and the setter ignores a
  Number. For one such column of width 50 and an available width of 90 the claim's entry
  would be 90, and the map is empty.
\<close>

theorem redistributed_proto_counterexample:
  "getColumnWidths [column ''__proto__'' (JNum (Fin 50))] JUndefined = [] \<and>
   getRedistributedColumnWidths [column ''__proto__'' (JNum (Fin 50))] (JNum (Fin 90)) JUndefined = [] \<and>
   toWidthPrecision
     (js_add (getEffectiveColumnWidth (column ''__proto__'' (JNum (Fin 50))) (JNum (Fin 1)))
        (js_div (js_sub (JNum (Fin 90))
                   (getTotalColumnsWidth [column ''__proto__'' (JNum (Fin 50))] JUndefined))
           (js_length [column ''__proto__'' (JNum (Fin 50))]))) = JNum (Fin 90)"
  by code_simp

text \<open>
  Claim C1, amended. For a non-empty list of columns, the redistributed width map has,
  at the id of each column whose id is not \<open>__proto__\<close>, the width-precision rounding of
  the width map's entry at that id plus the adjustment, and the adjustment is the
  difference between the available width and the total width divided by the number of
  columns in the list (not by the total count, which only enters the width map and the
  total). The adjustment is the same for every column. Neither map has an entry at
  \<open>__proto__\<close>.
\<close>

theorem redistributed_width_entry:
  "blocks \<noteq> [] \<Longrightarrow> b \<in> set blocks \<Longrightarrow> clientId b \<noteq> ''__proto__'' \<Longrightarrow>
   (\<exists>v. map_of (getColumnWidths blocks (default_count blocks totalCount)) (clientId b) = Some v \<and>
        map_of (getRedistributedColumnWidths blocks availableWidth totalCount) (clientId b) =
          Some (toWidthPrecision
                  (js_add v
                     (js_div (js_sub availableWidth
                                (getTotalColumnsWidth blocks (default_count blocks totalCount)))
                        (js_length blocks))))) \<and>
   map_of (getColumnWidths blocks (default_count blocks totalCount)) ''__proto__'' = None \<and>
   map_of (getRedistributedColumnWidths blocks availableWidth totalCount) ''__proto__'' = None"
proof -
  assume b: "b \<in> set blocks" and np: "clientId b \<noteq> ''__proto__''"
  let ?wm = "getColumnWidths blocks (default_count blocks totalCount)"
  have "map_of ?wm (clientId b) \<noteq> None"
    unfolding getColumnWidths_def using b np by (rule foldl_set_property_key)
  then obtain v where v: "map_of ?wm (clientId b) = Some v" by blast
  have p: "map_of ?wm ''__proto__'' = None"
    unfolding getColumnWidths_def by (rule foldl_set_property_no_proto) simp
  show ?thesis
    using v p by (simp add: getRedistributedColumnWidths_def Let_def map_of_mapValues)
qed

theorem redistributed_width_entry_witness:
  "[column ''a'' JUndefined, column ''b'' JUndefined, column ''c'' JUndefined] \<noteq> [] \<and>
   column ''b'' JUndefined \<in> set [column ''a'' JUndefined, column ''b'' JUndefined, column ''c'' JUndefined] \<and>
   clientId (column ''b'' JUndefined) \<noteq> ''__proto__'' \<and>
   map_of (getRedistributedColumnWidths
             [column ''a'' JUndefined, column ''b'' JUndefined, column ''c'' JUndefined]
             (JNum (Fin 90)) JUndefined) ''b'' = Some (JNum (Fin 30))"
proof -
  let ?bs = "[column ''a'' JUndefined, column ''b'' JUndefined, column ''c'' JUndefined]"
  let ?wm = "getColumnWidths ?bs (default_count ?bs JUndefined)"
  let ?adj = "js_div (js_sub (JNum (Fin 90)) (getTotalColumnsWidth ?bs (default_count ?bs JUndefined)))
                (js_length ?bs)"
  have ne: "?bs \<noteq> []" by simp
  have mem: "column ''b'' JUndefined \<in> set ?bs" by simp
  have id: "clientId (column ''b'' JUndefined) = ''b''" by (simp add: column_def)
  have np: "clientId (column ''b'' JUndefined) \<noteq> ''__proto__''" by (simp add: id)
  have look: "map_of ?wm ''b'' = Some (JNum (Fin (2345390243441541 / 70368744177664)))" by code_simp
  have val: "toWidthPrecision (js_add (JNum (Fin (2345390243441541 / 70368744177664))) ?adj) = JNum (Fin 30)"
    by code_simp
  from redistributed_width_entry [OF ne mem np, of JUndefined "JNum (Fin 90)"]
  obtain v where v: "map_of ?wm ''b'' = Some v"
    and r: "map_of (getRedistributedColumnWidths ?bs (JNum (Fin 90)) JUndefined) ''b'' =
            Some (toWidthPrecision (js_add v ?adj))"
    unfolding id by blast
  from v look have "v = JNum (Fin (2345390243441541 / 70368744177664))" by simp
  with r val have "map_of (getRedistributedColumnWidths ?bs (JNum (Fin 90)) JUndefined) ''b'' =
                   Some (JNum (Fin 30))" by simp
  with ne mem np show ?thesis by blast
qed

section \<open>Total width and the width map\<close>














section \<open>Applying a width map\<close>











section \<open>The error of floating-point sums\<close>

lemma tiny_le: "(2::rat) powi (- 1075) \<le> 1 / 2 ^ 21"
proof -
  have "(2::rat) powi (- 1075) \<le> 2 powi (- 21)" by (intro power_int_increasing) auto
  also have "(2::rat) powi (- 21) = 1 / 2 ^ 21" by (simp add: power_int_minus_divide)
  finally show ?thesis .
qed

lemma pow43_lt: "(2::rat) ^ 43 < 2 powi 1023"
proof -
  have "(2::rat) powi 43 < 2 powi 1023" by (intro power_int_strict_increasing) auto
  then show ?thesis by simp
qed

lemma rnd_small:
  assumes "\<bar>q\<bar> \<le> 2 ^ 43"
  shows "num_finite (rnd q) \<and> \<bar>num_val (rnd q) - q\<bar> \<le> 1 / 1000"
proof -
  have b: "\<bar>q\<bar> < 2 powi 1023" using assms pow43_lt by linarith
  from rnd_error [OF b]
  have f: "num_finite (rnd q)"
    and e: "\<bar>num_val (rnd q) - q\<bar> \<le> \<bar>q\<bar> / 2 ^ 53 + 2 powi (- 1075)" by auto
  have "\<bar>q\<bar> / 2 ^ 53 \<le> 2 ^ 43 / 2 ^ 53" using assms by (intro divide_right_mono) auto
  also have "(2::rat) ^ 43 / 2 ^ 53 = 1 / 2 ^ 10" by simp
  finally have "\<bar>q\<bar> / 2 ^ 53 \<le> 1 / 2 ^ 10" .
  moreover have "(1::rat) / 2 ^ 10 + 1 / 2 ^ 21 \<le> 1 / 1000" by simp
  ultimately have "\<bar>num_val (rnd q) - q\<bar> \<le> 1 / 1000" using e tiny_le by linarith
  then show ?thesis using f by simp
qed

lemma finite_zero_iff: "num_finite a \<Longrightarrow> is_zero a \<longleftrightarrow> num_val a = 0"
  by (cases a) auto

lemma finite_not_special: "num_finite a \<Longrightarrow> \<not> is_nan a \<and> \<not> is_inf a"
  by (cases a) auto

lemma signed_zero_val [simp]: "num_val (signed_zero s) = 0" "num_finite (signed_zero s)"
  by (simp_all add: signed_zero_def)

lemma num_add_small:
  assumes "num_finite a" "num_finite b" "\<bar>num_val a + num_val b\<bar> \<le> 2 ^ 43"
  shows "num_finite (num_add a b) \<and> \<bar>num_val (num_add a b) - (num_val a + num_val b)\<bar> \<le> 1 / 1000"
proof (cases "is_zero a \<and> is_zero b")
  case True
  then have "num_val a = 0" "num_val b = 0" using assms by (simp_all add: finite_zero_iff)
  then show ?thesis using True assms finite_not_special by (simp add: num_add_def)
next
  case False
  then have "num_add a b = rnd (num_val a + num_val b)"
    using assms finite_not_special by (auto simp: num_add_def)
  then show ?thesis using rnd_small [OF assms(3)] by simp
qed

lemma num_sub_small:
  assumes "num_finite a" "num_finite b" "\<bar>num_val a - num_val b\<bar> \<le> 2 ^ 43"
  shows "num_finite (num_sub a b) \<and> \<bar>num_val (num_sub a b) - (num_val a - num_val b)\<bar> \<le> 1 / 1000"
  using num_add_small [of a "num_neg b"] assms by (simp add: num_sub_def)

lemma num_div_small:
  assumes "num_finite a" "num_finite b" "num_val b \<noteq> 0" "\<bar>num_val a / num_val b\<bar> \<le> 2 ^ 43"
  shows "num_finite (num_div a b) \<and> \<bar>num_val (num_div a b) - num_val a / num_val b\<bar> \<le> 1 / 1000"
proof (cases "is_zero a")
  case True
  then have "num_val a = 0" using assms by (simp add: finite_zero_iff)
  moreover have "\<not> is_zero b" using assms by (simp add: finite_zero_iff)
  ultimately show ?thesis using True assms finite_not_special by (simp add: num_div_def Let_def)
next
  case False
  moreover have "\<not> is_zero b" using assms by (simp add: finite_zero_iff)
  ultimately have "num_div a b = rnd (num_val a / num_val b)"
    using assms finite_not_special by (auto simp: num_div_def Let_def)
  then show ?thesis using rnd_small [OF assms(4)] by simp
qed

lemma is_binary64_signed_zero: "is_binary64 (signed_zero s)"
  by (simp add: signed_zero_def is_binary64_def)

lemma is_binary64_num_add: "is_binary64 (num_add a b)"
proof -
  have inf: "is_binary64 z" if "is_inf z" for z using that by (cases z) (auto simp: is_binary64_def)
  show ?thesis
    using inf [of a] inf [of b] is_binary64_rnd is_binary64_signed_zero
    by (auto simp: num_add_def is_binary64_def)
qed

text \<open>Width precision of a Number of moderate size.\<close>

lemma toWidthPrecision_value:
  assumes w: "well_formed v" and f: "num_finite (parseFloat v)"
  shows "\<exists>r. toWidthPrecision v = JNum r \<and> is_binary64 r \<and>
           num_val r = num_val (rnd (two_decimals (num_val (parseFloat v))))"
proof (cases "parseFloat v")
  case (Fin x)
  let ?r = "if x < 0 \<and> two_decimals x = 0 then NegZero else rnd (two_decimals x)"
  have "toWidthPrecision v = JNum ?r" using toWidthPrecision_Fin [OF Fin w] .
  moreover have "is_binary64 ?r" using is_binary64_rnd by (simp add: is_binary64_def)
  moreover have "num_val ?r = num_val (rnd (two_decimals x))" by auto
  ultimately show ?thesis using Fin by auto
next
  case NegZero
  then have "toWidthPrecision v = JNum (Fin 0)" by (rule toWidthPrecision_NegZero)
  then show ?thesis using NegZero by (simp add: is_binary64_def two_decimals_def)
qed (use f in simp_all)

lemma toWidthPrecision_small:
  assumes w: "well_formed v" and f: "num_finite (parseFloat v)"
    and b: "\<bar>num_val (parseFloat v)\<bar> \<le> 2 ^ 43 - 1"
  shows "\<exists>r. toWidthPrecision v = JNum r \<and> is_binary64 r \<and> num_finite r \<and>
           \<bar>num_val r - num_val (parseFloat v)\<bar> \<le> 1 / 200 + 1 / 1000"
proof -
  let ?x = "num_val (parseFloat v)"
  from toWidthPrecision_value [OF w f] obtain r where
    r: "toWidthPrecision v = JNum r" "is_binary64 r" "num_val r = num_val (rnd (two_decimals ?x))"
    by blast
  have td: "\<bar>two_decimals ?x - ?x\<bar> \<le> 1 / 200" by (rule two_decimals_error)
  then have "\<bar>two_decimals ?x\<bar> \<le> 2 ^ 43" using b by linarith
  from rnd_small [OF this]
  have e: "\<bar>num_val (rnd (two_decimals ?x)) - two_decimals ?x\<bar> \<le> 1 / 1000" by simp
  have "toWidthPrecision v \<noteq> JUndefined" using r(1) by simp
  have fr: "num_finite r"
  proof -
    have "toWidthPrecision v = JNum (parseFloat (JStr (toFixed2 (parseFloat v))))"
      using f by (simp add: toWidthPrecision_def Let_def)
    then have "r = parseFloat (JStr (toFixed2 (parseFloat v)))" using r(1) by simp
    show ?thesis
    proof (cases "parseFloat v")
      case (Fin x)
      have "toWidthPrecision v = JNum (if x < 0 \<and> two_decimals x = 0 then NegZero else rnd (two_decimals x))"
        using toWidthPrecision_Fin [OF Fin w] .
      then have "r = (if x < 0 \<and> two_decimals x = 0 then NegZero else rnd (two_decimals x))"
        using r(1) by simp
      moreover have "num_finite (rnd (two_decimals x))"
        using rnd_small [OF \<open>\<bar>two_decimals ?x\<bar> \<le> 2 ^ 43\<close>] Fin by simp
      ultimately show ?thesis by auto
    next
      case NegZero
      then have "toWidthPrecision v = JNum (Fin 0)" by (rule toWidthPrecision_NegZero)
      then show ?thesis using r(1) by simp
    qed (use f in simp_all)
  qed
  have "\<bar>num_val r - ?x\<bar> \<le> 1 / 200 + 1 / 1000" using td e r(3) by linarith
  then show ?thesis using r fr by blast
qed

text \<open>The floating-point sum of moderate Numbers is close to their sum.\<close>

lemma baseSum_numbers:
  assumes "\<forall>y \<in> set ys. num_finite y"
    and "num_finite acc" "\<bar>num_val acc\<bar> \<le> M"
    and "M + sum_list (map (\<lambda>y. \<bar>num_val y\<bar> + 1 / 1000) ys) \<le> 2 ^ 43"
  shows "\<exists>T. baseSum (map JNum ys) (JNum acc) = JNum T \<and> num_finite T \<and>
           \<bar>num_val T - (num_val acc + sum_list (map num_val ys))\<bar> \<le> of_nat (length ys) / 1000 \<and>
           \<bar>num_val T\<bar> \<le> M + sum_list (map (\<lambda>y. \<bar>num_val y\<bar> + 1 / 1000) ys)"
  using assms
proof (induction ys arbitrary: acc M)
  case Nil
  then show ?case by simp
next
  case (Cons y ys)
  let ?R = "sum_list (map (\<lambda>y. \<bar>num_val y\<bar> + 1 / 1000) ys)"
  have fy: "num_finite y" using Cons.prems(1) by auto
  have nn: "0 \<le> ?R" by (intro sum_list_nonneg) auto
  have len: "M + (\<bar>num_val y\<bar> + 1 / 1000) + ?R \<le> 2 ^ 43"
    using Cons.prems(4) by simp
  have s43: "\<bar>num_val acc + num_val y\<bar> \<le> 2 ^ 43"
    using Cons.prems(3) len nn by linarith
  let ?a = "num_add acc y"
  from num_add_small [OF Cons.prems(2) fy s43]
  have fa: "num_finite ?a" and ea: "\<bar>num_val ?a - (num_val acc + num_val y)\<bar> \<le> 1 / 1000"
    by auto
  have ba: "\<bar>num_val ?a\<bar> \<le> M + (\<bar>num_val y\<bar> + 1 / 1000)" using ea Cons.prems(3) by linarith
  have rest: "\<forall>y \<in> set ys. num_finite y" using Cons.prems(1) by simp
  from Cons.IH [OF rest fa ba len] obtain T where
    T: "baseSum (map JNum ys) (JNum ?a) = JNum T" "num_finite T"
      "\<bar>num_val T - (num_val ?a + sum_list (map num_val ys))\<bar> \<le> of_nat (length ys) / 1000"
      "\<bar>num_val T\<bar> \<le> M + (\<bar>num_val y\<bar> + 1 / 1000) + ?R"
    by blast
  have step: "baseSum (map JNum (y # ys)) (JNum acc) = baseSum (map JNum ys) (JNum ?a)"
    by (simp add: js_add_def)
  have e: "\<bar>num_val T - (num_val acc + sum_list (map num_val (y # ys)))\<bar>
           \<le> of_nat (length (y # ys)) / 1000"
  proof -
    have "(of_nat (length (y # ys)) :: rat) / 1000 = of_nat (length ys) / 1000 + 1 / 1000"
      by (simp add: add_divide_distrib)
    moreover have "sum_list (map num_val (y # ys)) = num_val y + sum_list (map num_val ys)" by simp
    ultimately show ?thesis using T(3) ea by linarith
  qed
  have b: "\<bar>num_val T\<bar> \<le> M + sum_list (map (\<lambda>y. \<bar>num_val y\<bar> + 1 / 1000) (y # ys))"
    using T(4) by simp
  show ?case using step T(1,2) e b by auto
qed

lemma sum_list_abs_diff:
  "(\<forall>x \<in> set xs. \<bar>f x - g x\<bar> \<le> d) \<Longrightarrow>
   \<bar>sum_list (map f xs) - sum_list (map g xs)\<bar> \<le> of_nat (length xs) * (d::rat)"
proof (induction xs)
  case Nil
  then show ?case by simp
next
  case (Cons x xs)
  have "\<bar>f x - g x\<bar> \<le> d" using Cons.prems by simp
  moreover have "\<bar>sum_list (map f xs) - sum_list (map g xs)\<bar> \<le> of_nat (length xs) * d"
    using Cons by simp
  moreover have "(of_nat (length (x # xs)) :: rat) * d = of_nat (length xs) * d + d"
    by (simp add: algebra_simps)
  ultimately show ?case by simp
qed

lemma sum_list_add_const:
  "sum_list (map (\<lambda>x. g x + c) xs) = sum_list (map g xs) + of_nat (length xs) * (c::rat)"
  by (induction xs) (simp_all add: algebra_simps)

lemma abs_div_ge1: "1 \<le> k \<Longrightarrow> \<bar>x / k\<bar> \<le> \<bar>x :: rat\<bar>"
proof -
  assume k: "1 \<le> k"
  have "\<bar>x / k\<bar> = \<bar>x\<bar> / k" using k by simp
  also have "\<dots> \<le> \<bar>x\<bar> / 1" using k by (intro divide_left_mono) auto
  finally show ?thesis by simp
qed

lemma parseFloat_num_val: "num_val (parseFloat (JNum s)) = num_val s"
  by (cases s) auto

lemma parseFloat_num_finite: "num_finite (parseFloat (JNum s)) = num_finite s"
  by (cases s) auto

lemma sum_list_member_le:
  "\<forall>x \<in> set xs. (0::rat) \<le> f x \<Longrightarrow> b \<in> set xs \<Longrightarrow> f b \<le> sum_list (map f xs)"
proof (induction xs)
  case Nil
  then show ?case by simp
next
  case (Cons x xs)
  have nn: "0 \<le> sum_list (map f xs)" using Cons.prems(1) by (intro sum_list_nonneg) auto
  show ?case
  proof (cases "b = x")
    case True
    then show ?thesis using nn by simp
  next
    case False
    then have "f b \<le> sum_list (map f xs)" using Cons by simp
    moreover have "0 \<le> f x" using Cons.prems(1) by simp
    ultimately show ?thesis by simp
  qed
qed

lemma sum_list_mono_rat:
  "\<forall>x \<in> set xs. f x \<le> (g x :: rat) \<Longrightarrow> sum_list (map f xs) \<le> sum_list (map g xs)"
  by (induction xs) (auto intro: add_mono)

lemma sum_list_permuted:
  "mset xs = mset ys \<Longrightarrow> sum_list (map f xs) = (sum_list (map f ys) :: rat)"
proof -
  assume m: "mset xs = mset ys"
  have "sum_list (map f xs) = sum_mset (image_mset f (mset xs))"
    by (simp add: sum_mset_sum_list [symmetric])
  also have "\<dots> = sum_mset (image_mset f (mset ys))" by (simp only: m)
  also have "\<dots> = sum_list (map f ys)" by (simp add: sum_mset_sum_list [symmetric])
  finally show ?thesis .
qed

section \<open>Redistributed widths sum to the available width\<close>

text \<open>
  Claim C6 says that for every available width the redistributed widths sum to it within
  \<open>0.01 * n\<close>. Binary64 arithmetic does not allow that for every input. With one column
  of width \<open>2\<^sup>4\<^sup>6 + 1\<close> and the available width \<open>9 / 1024\<close>, the difference rounds to
  \<open>1 / 64 - (2\<^sup>4\<^sup>6 + 1)\<close>, and the redistributed width is \<open>0.02\<close>, more than \<open>0.01\<close> from the
  available width. With the available width \<open>Infinity\<close> the redistributed width is
  undefined. And a column whose id is \<open>__proto__\<close> has no redistributed width at all.
\<close>

theorem redistributed_sum_counterexample:
  "distinct (map clientId [column ''a'' (JNum (Fin (2 ^ 46 + 1)))]) \<and>
   well_formed (JNum (Fin (2 ^ 46 + 1))) \<and>
   parseFloat (width (attributes (column ''a'' (JNum (Fin (2 ^ 46 + 1)))))) = Fin (2 ^ 46 + 1) \<and>
   map (\<lambda>kv. num_val (to_number (snd kv)))
     (getRedistributedColumnWidths [column ''a'' (JNum (Fin (2 ^ 46 + 1)))] (JNum (Fin (9 / 1024))) JUndefined) =
     [num_val (rnd (2 / 100))] \<and>
   \<not> \<bar>sum_list (map (\<lambda>kv. num_val (to_number (snd kv)))
          (getRedistributedColumnWidths [column ''a'' (JNum (Fin (2 ^ 46 + 1)))] (JNum (Fin (9 / 1024))) JUndefined))
        - 9 / 1024\<bar> \<le> of_nat (length [column ''a'' (JNum (Fin (2 ^ 46 + 1)))]) / 100 \<and>
   getRedistributedColumnWidths [column ''a'' (JNum (Fin 50))] (JNum PosInf) JUndefined =
     [(''a'', JUndefined)] \<and>
   getRedistributedColumnWidths [column ''__proto__'' (JNum (Fin 50))] (JNum (Fin 90)) JUndefined = [] \<and>
   \<not> \<bar>sum_list (map (\<lambda>kv. num_val (to_number (snd kv)))
          (getRedistributedColumnWidths [column ''__proto__'' (JNum (Fin 50))] (JNum (Fin 90)) JUndefined))
        - 90\<bar> \<le> of_nat (length [column ''__proto__'' (JNum (Fin 50))]) / 100"
  by code_simp

text \<open>
  Claim C6, amended. Take a non-empty list of \<open>n\<close> columns with pairwise distinct ids,
  none of them \<open>__proto__\<close>, each of which declares no width or a width that parses to a
  finite number, and an available width that is a finite number. Let the size of the
  input be the magnitude of the available width plus twice the sum, over the columns,
  of the magnitude of the width the column asks for plus one (a column that declares no
  width asks for \<open>100 / n\<close>). When the size is at most \<open>2\<^sup>4\<^sup>3\<close>, every redistributed width is
  a finite number and their sum is within \<open>0.01 * n\<close> of the available width. Number
  widths are taken to be binary64 values.
\<close>

theorem redistributed_sum_within_tolerance:
  assumes ne: "blocks \<noteq> []"
    and d: "distinct (map clientId blocks)"
    and np: "''__proto__'' \<notin> clientId ` set blocks"
    and ws: "\<forall>b \<in> set blocks.
               width (attributes b) = JUndefined \<or>
               well_formed (width (attributes b)) \<and> num_finite (parseFloat (width (attributes b)))"
    and af: "num_finite (to_number availableWidth)"
    and size: "\<bar>num_val (to_number availableWidth)\<bar> +
               2 * sum_list (map (\<lambda>b. \<bar>asked_width b (length blocks)\<bar> + 1) blocks) \<le> 2 ^ 43"
  shows "(\<forall>kv \<in> set (getRedistributedColumnWidths blocks availableWidth JUndefined).
            \<exists>r. snd kv = JNum r \<and> num_finite r) \<and>
         \<bar>sum_list (map (\<lambda>kv. num_val (to_number (snd kv)))
                      (getRedistributedColumnWidths blocks availableWidth JUndefined))
            - num_val (to_number availableWidth)\<bar> \<le> of_nat (length blocks) / 100"
proof -
  define n :: rat where "n = of_nat (length blocks)"
  define t where "t = default_count blocks JUndefined"
  define x where "x b = asked_width b (length blocks)" for b :: "('a, 'b) block_scheme"
  define y where "y b = to_number (getEffectiveColumnWidth b t)" for b :: "('a, 'b) block_scheme"
  define Av where "Av = num_val (to_number availableWidth)"
  define W where "W = sum_list (map (\<lambda>b. \<bar>x b\<bar> + 1) blocks)"
  define W' where "W' = sum_list (map (\<lambda>b. \<bar>x b\<bar> + 1 / 100) blocks)"
  have n1: "1 \<le> n" using ne unfolding n_def by (cases blocks) auto
  have tn: "t = JNum (Fin n)" by (simp add: t_def default_count_def js_length_def n_def)
  have tt: "default_count blocks t = t" by (simp add: tn default_count_def)
  have size': "\<bar>Av\<bar> + 2 * W \<le> 2 ^ 43" using size unfolding Av_def W_def x_def .
  have WW: "W = W' + n * (99 / 100)"
  proof -
    have "(\<lambda>b. \<bar>x b\<bar> + 1) = (\<lambda>b. (\<bar>x b\<bar> + 1 / 100) + 99 / 100)" by (rule ext) simp
    then show ?thesis
      unfolding W_def W'_def n_def
      using sum_list_add_const [of "\<lambda>b. \<bar>x b\<bar> + 1 / 100" "99 / 100" blocks] by simp
  qed
  have "n * (99 / 100) \<ge> 99 / 100" using n1 by simp
  then have W'le: "W' \<le> W - 99 / 100" using WW by linarith
  have W'0: "0 \<le> W'" unfolding W'_def by (intro sum_list_nonneg) auto
  have xW: "\<bar>x b\<bar> + 1 \<le> W" if "b \<in> set blocks" for b
    unfolding W_def using that by (intro sum_list_member_le [where f = "\<lambda>b. \<bar>x b\<bar> + 1"]) auto
  have p43: "(2::rat) ^ 43 = 8796093022208" by simp
  txt \<open>The effective widths.\<close>
  have eff: "getEffectiveColumnWidth b t = JNum (y b) \<and> is_binary64 (y b) \<and> num_finite (y b) \<and>
             \<bar>num_val (y b) - x b\<bar> \<le> 7 / 1000" if b: "b \<in> set blocks" for b
  proof (cases "width (attributes b) = JUndefined")
    case True
    have xb: "x b = 100 / n" using True by (simp add: x_def asked_width_def n_def)
    have q: "num_div (Fin 100) (Fin n) = rnd (100 / n)"
      using n1 by (simp add: num_div_def Let_def)
    have g: "getEffectiveColumnWidth b t = toWidthPrecision (JNum (rnd (100 / n)))"
      using True by (simp add: getEffectiveColumnWidth_def tn js_div_def q)
    have "\<bar>100 / n\<bar> \<le> 100" using abs_div_ge1 [OF n1, of 100] by simp
    then have b100: "\<bar>100 / n\<bar> \<le> 2 ^ 43" unfolding p43 by linarith
    from rnd_small [OF b100]
    have f0: "num_finite (rnd (100 / n))" and e0: "\<bar>num_val (rnd (100 / n)) - 100 / n\<bar> \<le> 1 / 1000"
      by auto
    have wf: "well_formed (JNum (rnd (100 / n)))" by (simp add: well_formed_def is_binary64_rnd)
    have pf: "num_finite (parseFloat (JNum (rnd (100 / n))))" using f0 by (simp only: parseFloat_num_finite)
    have "\<bar>num_val (rnd (100 / n))\<bar> \<le> 2 ^ 43 - 1"
      using e0 \<open>\<bar>100 / n\<bar> \<le> 100\<close> unfolding p43 by linarith
    then have pb: "\<bar>num_val (parseFloat (JNum (rnd (100 / n))))\<bar> \<le> 2 ^ 43 - 1"
      by (simp only: parseFloat_num_val)
    from toWidthPrecision_small [OF wf pf pb] obtain r where
      r: "toWidthPrecision (JNum (rnd (100 / n))) = JNum r" "is_binary64 r" "num_finite r"
        "\<bar>num_val r - num_val (rnd (100 / n))\<bar> \<le> 1 / 200 + 1 / 1000"
      by (auto simp only: parseFloat_num_val)
    have yr: "y b = r" using r(1) g by (simp add: y_def)
    have "\<bar>num_val r - x b\<bar> \<le> 7 / 1000" using r(4) e0 unfolding xb by linarith
    then show ?thesis using g r yr by simp
  next
    case False
    let ?w = "width (attributes b)"
    from ws b False have w: "well_formed ?w" and f: "num_finite (parseFloat ?w)" by auto
    have xb: "x b = num_val (parseFloat ?w)" using False by (simp add: x_def asked_width_def)
    have g: "getEffectiveColumnWidth b t = toWidthPrecision ?w"
      using False by (simp add: getEffectiveColumnWidth_def)
    have "\<bar>num_val (parseFloat ?w)\<bar> \<le> 2 ^ 43 - 1"
      using xW [OF b] size' W'0 W'le xb by linarith
    from toWidthPrecision_small [OF w f this] obtain r where
      r: "toWidthPrecision ?w = JNum r" "is_binary64 r" "num_finite r"
        "\<bar>num_val r - num_val (parseFloat ?w)\<bar> \<le> 1 / 200 + 1 / 1000" by blast
    have yr: "y b = r" using r(1) g by (simp add: y_def)
    have "\<bar>num_val r - x b\<bar> \<le> 7 / 1000" using r(4) unfolding xb by linarith
    then show ?thesis using g r yr by simp
  qed
  have ybound: "\<bar>num_val (y b)\<bar> + 1 / 1000 \<le> \<bar>x b\<bar> + 1 / 100" if "b \<in> set blocks" for b
    using eff [OF that] by linarith
  txt \<open>The total width.\<close>
  define ys where "ys = map y blocks"
  define S where "S = sum_list (map num_val ys)"
  have effs: "map (\<lambda>b. getEffectiveColumnWidth b t) blocks = map JNum ys"
    using eff by (simp add: ys_def)
  have total: "\<exists>T. getTotalColumnsWidth blocks t = JNum T \<and> num_finite T \<and>
                 \<bar>num_val T - S\<bar> \<le> n / 1000 \<and> \<bar>num_val T\<bar> \<le> W'"
  proof -
    obtain b0 rest where br: "blocks = b0 # rest" using ne by (cases blocks) auto
    define ys' where "ys' = map y rest"
    have ysc: "ys = y b0 # ys'" by (simp add: ys_def ys'_def br)
    have all: "\<forall>z \<in> set ys'. num_finite z" using eff by (auto simp: ys'_def br)
    have b0: "num_finite (y b0)" "\<bar>num_val (y b0)\<bar> \<le> \<bar>x b0\<bar> + 1 / 100"
      using eff [of b0] ybound [of b0] by (simp_all add: br)
    have l': "(of_nat (length ys') :: rat) = n - 1" by (simp add: n_def br ys'_def)
    have "sum_list (map (\<lambda>b. \<bar>num_val (y b)\<bar> + 1 / 1000) rest) \<le>
          sum_list (map (\<lambda>b. \<bar>x b\<bar> + 1 / 100) rest)"
      using ybound by (intro sum_list_mono_rat) (simp add: br)
    moreover have "sum_list (map (\<lambda>z. \<bar>num_val z\<bar> + 1 / 1000) ys') =
                   sum_list (map (\<lambda>b. \<bar>num_val (y b)\<bar> + 1 / 1000) rest)"
      by (simp add: ys'_def comp_def)
    moreover have "W' = (\<bar>x b0\<bar> + 1 / 100) + sum_list (map (\<lambda>b. \<bar>x b\<bar> + 1 / 100) rest)"
      by (simp add: W'_def br)
    ultimately have room': "(\<bar>x b0\<bar> + 1 / 100) + sum_list (map (\<lambda>z. \<bar>num_val z\<bar> + 1 / 1000) ys') \<le> W'"
      by linarith
    have "W' \<le> 2 ^ 43" using size' W'le W'0 by linarith
    with room' have room: "(\<bar>x b0\<bar> + 1 / 100) + sum_list (map (\<lambda>z. \<bar>num_val z\<bar> + 1 / 1000) ys') \<le> 2 ^ 43"
      by linarith
    from baseSum_numbers [OF all b0(1) b0(2) room] obtain T where
      T: "baseSum (map JNum ys') (JNum (y b0)) = JNum T" "num_finite T"
        "\<bar>num_val T - (num_val (y b0) + sum_list (map num_val ys'))\<bar> \<le> of_nat (length ys') / 1000"
        "\<bar>num_val T\<bar> \<le> (\<bar>x b0\<bar> + 1 / 100) + sum_list (map (\<lambda>z. \<bar>num_val z\<bar> + 1 / 1000) ys')"
      by blast
    have "getTotalColumnsWidth blocks t = baseSum (map JNum ys) JUndefined"
      using ne by (simp add: getTotalColumnsWidth_def sumBy_def tt effs)
    then have gt: "getTotalColumnsWidth blocks t = JNum T" using T(1) by (simp add: ysc)
    have "S = num_val (y b0) + sum_list (map num_val ys')" by (simp add: S_def ysc)
    moreover have "(of_nat (length ys') :: rat) / 1000 \<le> n / 1000"
      using l' by (simp add: divide_right_mono)
    ultimately have e: "\<bar>num_val T - S\<bar> \<le> n / 1000" using T(3) by linarith
    have bT: "\<bar>num_val T\<bar> \<le> W'" using T(4) room' by linarith
    show ?thesis using gt T(2) e bT by blast
  qed
  then obtain T where
    T: "getTotalColumnsWidth blocks t = JNum T" "num_finite T"
      "\<bar>num_val T - S\<bar> \<le> n / 1000" "\<bar>num_val T\<bar> \<le> W'" by blast
  txt \<open>The difference and the adjustment.\<close>
  define D where "D = num_sub (to_number availableWidth) T"
  define adj where "adj = num_div D (Fin n)"
  have dsub: "\<bar>Av - num_val T\<bar> \<le> 2 ^ 43" using size' T(4) W'le W'0 by linarith
  from num_sub_small [OF af T(2) dsub [unfolded Av_def]]
  have fD: "num_finite D" and eD: "\<bar>num_val D - (Av - num_val T)\<bar> \<le> 1 / 1000"
    unfolding D_def Av_def by auto
  have bD: "\<bar>num_val D\<bar> \<le> \<bar>Av\<bar> + W' + 1 / 1000"
    using eD T(4) by linarith
  have nfin: "num_finite (Fin n)" and nval: "num_val (Fin n) \<noteq> 0" using n1 by auto
  have dn: "\<bar>num_val D / n\<bar> \<le> \<bar>num_val D\<bar>" using n1 by (rule abs_div_ge1)
  then have bq: "\<bar>num_val D / num_val (Fin n)\<bar> \<le> 2 ^ 43" using bD size' W'le W'0 by simp
  from num_div_small [OF fD nfin nval bq]
  have fadj: "num_finite adj" and eadj: "\<bar>num_val adj - num_val D / n\<bar> \<le> 1 / 1000"
    unfolding adj_def by auto
  have badj: "\<bar>num_val adj\<bar> \<le> \<bar>Av\<bar> + W' + 2 / 1000"
    using eadj dn bD by linarith
  have k1: "\<bar>num_val D / n - (Av - num_val T) / n\<bar> \<le> 1 / 1000"
  proof -
    have "num_val D / n - (Av - num_val T) / n = (num_val D - (Av - num_val T)) / n"
      by (simp add: diff_divide_distrib)
    moreover have "\<bar>(num_val D - (Av - num_val T)) / n\<bar> \<le> \<bar>num_val D - (Av - num_val T)\<bar>"
      using n1 by (rule abs_div_ge1)
    ultimately show ?thesis using eD by linarith
  qed
  have k2: "\<bar>(Av - num_val T) / n - (Av - S) / n\<bar> \<le> 1 / 1000"
  proof -
    have "(Av - num_val T) / n - (Av - S) / n = (S - num_val T) / n"
      by (simp add: diff_divide_distrib)
    moreover have "\<bar>(S - num_val T) / n\<bar> = \<bar>S - num_val T\<bar> / n" using n1 by simp
    moreover have "\<bar>S - num_val T\<bar> / n \<le> (n / 1000) / n"
      using T(3) n1 by (intro divide_right_mono) (auto simp: abs_minus_commute)
    moreover have "(n / 1000) / n = 1 / 1000" using n1 by simp
    ultimately show ?thesis by linarith
  qed
  have jsd: "js_sub availableWidth (getTotalColumnsWidth blocks t) = JNum D"
    by (simp add: js_sub_def T(1) D_def)
  have jadj: "js_div (js_sub availableWidth (getTotalColumnsWidth blocks t)) (js_length blocks) = JNum adj"
    by (simp add: jsd js_div_def js_length_def adj_def n_def)
  txt \<open>Each redistributed width.\<close>
  define f where "f w = toWidthPrecision (js_add w (JNum adj))" for w
  define c where "c = (Av - S) / n"
  have per: "\<exists>r. f (JNum (y b)) = JNum r \<and> num_finite r \<and>
               \<bar>num_val r - (num_val (y b) + c)\<bar> \<le> 1 / 100" if b: "b \<in> set blocks" for b
  proof -
    from eff [OF b] have fy: "num_finite (y b)" and bnd: "\<bar>num_val (y b) - x b\<bar> \<le> 7 / 1000" by auto
    define s where "s = num_add (y b) adj"
    have "\<bar>num_val (y b) + num_val adj\<bar> \<le> 2 ^ 43"
      using bnd badj xW [OF b] size' W'le by linarith
    from num_add_small [OF fy fadj this]
    have fs: "num_finite s" and es: "\<bar>num_val s - (num_val (y b) + num_val adj)\<bar> \<le> 1 / 1000"
      unfolding s_def by auto
    have bs: "\<bar>num_val s\<bar> \<le> 2 ^ 43 - 1" using es bnd badj xW [OF b] size' W'le by linarith
    have wfs: "well_formed (JNum s)" using is_binary64_num_add by (simp add: well_formed_def s_def)
    have pf: "num_finite (parseFloat (JNum s))" using fs by (simp only: parseFloat_num_finite)
    have pb: "\<bar>num_val (parseFloat (JNum s))\<bar> \<le> 2 ^ 43 - 1" using bs by (simp only: parseFloat_num_val)
    from toWidthPrecision_small [OF wfs pf pb] obtain r where
      r: "toWidthPrecision (JNum s) = JNum r" "num_finite r"
        "\<bar>num_val r - num_val s\<bar> \<le> 1 / 200 + 1 / 1000"
      by (auto simp only: parseFloat_num_val)
    have fr: "f (JNum (y b)) = JNum r" using r(1) by (simp add: f_def js_add_def s_def)
    have "\<bar>num_val r - (num_val (y b) + c)\<bar> \<le> 1 / 100"
      using r(3) es eadj k1 k2 unfolding c_def by linarith
    then show ?thesis using fr r(2) by blast
  qed
  txt \<open>The redistributed width map: the columns' entries, in the order of enumeration.\<close>
  let ?L = "map (\<lambda>b. (clientId b, JNum (y b))) blocks"
  have "mset (getColumnWidths blocks t) =
        mset (map (\<lambda>b. (clientId b, getEffectiveColumnWidth b (default_count blocks t))) blocks)"
    using d np by (rule getColumnWidths_mset)
  moreover have "map (\<lambda>b. (clientId b, getEffectiveColumnWidth b (default_count blocks t))) blocks = ?L"
    using eff by (simp add: tt)
  ultimately have cw: "mset (getColumnWidths blocks t) = mset ?L" by simp
  have R: "getRedistributedColumnWidths blocks availableWidth JUndefined =
           map (\<lambda>(key, v). (key, f v)) (getColumnWidths blocks t)"
    unfolding getRedistributedColumnWidths_def Let_def t_def [symmetric] jadj mapValues_def
    by (simp add: f_def)
  have setcw: "set (getColumnWidths blocks t) = set ?L" using cw by (rule mset_eq_setD)
  have first: "\<forall>kv \<in> set (getRedistributedColumnWidths blocks availableWidth JUndefined).
                 \<exists>r. snd kv = JNum r \<and> num_finite r"
    unfolding R using per by (auto simp: setcw)
  define h where "h kv = num_val (to_number (f (snd kv)))" for kv :: "string \<times> jsval"
  define g where "g b = num_val (to_number (f (JNum (y b))))" for b
  have gb: "\<bar>g b - (num_val (y b) + c)\<bar> \<le> 1 / 100" if "b \<in> set blocks" for b
    using per [OF that] by (auto simp: g_def)
  have "map (\<lambda>kv. num_val (to_number (snd kv)))
          (getRedistributedColumnWidths blocks availableWidth JUndefined) =
        map h (getColumnWidths blocks t)"
    unfolding R by (simp add: h_def comp_def case_prod_unfold)
  then have "sum_list (map (\<lambda>kv. num_val (to_number (snd kv)))
               (getRedistributedColumnWidths blocks availableWidth JUndefined)) =
             sum_list (map h (getColumnWidths blocks t))" by simp
  also have "\<dots> = sum_list (map h ?L)" using cw by (rule sum_list_permuted)
  also have "map h ?L = map g blocks" by (simp add: h_def g_def comp_def)
  finally have vals: "sum_list (map (\<lambda>kv. num_val (to_number (snd kv)))
               (getRedistributedColumnWidths blocks availableWidth JUndefined)) =
             sum_list (map g blocks)" .
  have "\<bar>sum_list (map g blocks) - sum_list (map (\<lambda>b. num_val (y b) + c) blocks)\<bar>
        \<le> of_nat (length blocks) * (1 / 100)"
    using gb by (intro sum_list_abs_diff) auto
  moreover have "sum_list (map (\<lambda>b. num_val (y b) + c) blocks) = Av"
  proof -
    have "sum_list (map (\<lambda>b. num_val (y b) + c) blocks) =
          sum_list (map (\<lambda>b. num_val (y b)) blocks) + of_nat (length blocks) * c"
      by (rule sum_list_add_const)
    moreover have "sum_list (map (\<lambda>b. num_val (y b)) blocks) = S"
      by (simp add: S_def ys_def comp_def)
    moreover have "of_nat (length blocks) * c = Av - S"
      using n1 unfolding c_def n_def [symmetric] by simp
    ultimately show ?thesis by simp
  qed
  ultimately have "\<bar>sum_list (map g blocks) - Av\<bar> \<le> of_nat (length blocks) / 100" by simp
  then show ?thesis using first unfolding vals Av_def by blast
qed

theorem redistributed_sum_within_tolerance_witness:
  "[column ''a'' JUndefined, column ''b'' JUndefined, column ''c'' JUndefined] \<noteq> [] \<and>
   distinct (map clientId [column ''a'' JUndefined, column ''b'' JUndefined, column ''c'' JUndefined]) \<and>
   ''__proto__'' \<notin> clientId ` set [column ''a'' JUndefined, column ''b'' JUndefined, column ''c'' JUndefined] \<and>
   width (attributes (column ''a'' JUndefined)) = JUndefined \<and>
   asked_width (column ''a'' JUndefined) 3 = 100 / 3 \<and>
   to_number (JNum (Fin 90)) = Fin 90 \<and>
   getRedistributedColumnWidths [column ''a'' JUndefined, column ''b'' JUndefined, column ''c'' JUndefined]
     (JNum (Fin 90)) JUndefined =
     [(''a'', JNum (Fin 30)), (''b'', JNum (Fin 30)), (''c'', JNum (Fin 30))] \<and>
   \<bar>sum_list (map (\<lambda>kv. num_val (to_number (snd kv)))
        (getRedistributedColumnWidths [column ''a'' JUndefined, column ''b'' JUndefined, column ''c'' JUndefined]
           (JNum (Fin 90)) JUndefined))
      - num_val (to_number (JNum (Fin 90)))\<bar>
     \<le> of_nat (length [column ''a'' JUndefined, column ''b'' JUndefined, column ''c'' JUndefined]) / 100"
proof -
  let ?bs = "[column ''a'' JUndefined, column ''b'' JUndefined, column ''c'' JUndefined]"
  have ne: "?bs \<noteq> []" by simp
  have d: "distinct (map clientId ?bs)" by (simp add: column_def)
  have np: "''__proto__'' \<notin> clientId ` set ?bs" by (simp add: column_def)
  have u: "width (attributes (column i JUndefined)) = JUndefined" for i by (simp add: column_def)
  have a: "asked_width (column i JUndefined) 3 = 100 / 3" for i
    by (simp add: asked_width_def column_def)
  have ws: "\<forall>b \<in> set ?bs.
               width (attributes b) = JUndefined \<or>
               well_formed (width (attributes b)) \<and> num_finite (parseFloat (width (attributes b)))"
    using u by simp
  have af: "num_finite (to_number (JNum (Fin 90)))" by simp
  have size: "\<bar>num_val (to_number (JNum (Fin 90)))\<bar> +
               2 * sum_list (map (\<lambda>b. \<bar>asked_width b (length ?bs)\<bar> + 1) ?bs) \<le> 2 ^ 43"
  proof -
    have "map (\<lambda>b. \<bar>asked_width b (length ?bs)\<bar> + 1) ?bs = [103 / 3, 103 / 3, 103 / 3]"
      by (simp add: asked_width_def column_def)
    then show ?thesis by simp
  qed
  have r: "getRedistributedColumnWidths ?bs (JNum (Fin 90)) JUndefined =
           [(''a'', JNum (Fin 30)), (''b'', JNum (Fin 30)), (''c'', JNum (Fin 30))]" by code_simp
  from redistributed_sum_within_tolerance [OF ne d np ws af size]
  have "\<bar>sum_list (map (\<lambda>kv. num_val (to_number (snd kv)))
        (getRedistributedColumnWidths ?bs (JNum (Fin 90)) JUndefined))
      - num_val (to_number (JNum (Fin 90)))\<bar> \<le> of_nat (length ?bs) / 100" by blast
  then show ?thesis using ne d np u [of "''a''"] a [of "''a''"] r by simp
qed

end
